theory Spec2Isabelle
  imports Main "HOL-Library.AList" "HOL-Library.Multiset"
begin

section \<open>The download directory, the environment and the observable trace\<close>

text \<open>
  The program is \<^verbatim>\<open>src/index.js\<close>. Everything it keeps on disk lives below
  \<^verbatim>\<open>DOWNLOAD_DIR\<close>: the entries of that directory (\<open>dirs\<close>, in the order
  \<^verbatim>\<open>readdirSync\<close> lists them), the files inside an entry, addressed by entry name and
  file name, \<^verbatim>\<open>checksums.json\<close> and \<^verbatim>\<open>index.json\<close>. The two JSON files are kept
  parsed: an object is an association list in insertion order, \<open>None\<close> is "the file does
  not exist".
\<close>

type_synonym bytes = string

type_synonym path = "string \<times> string"

record manifest_record =
  r_fileName :: string
  r_url :: string
  r_size :: nat
  r_checksum :: string

record disk =
  dirs :: "string list"
  files :: "path \<Rightarrow> bytes option"
  checksum_file :: "(string \<times> string) list option"
  index_file :: "manifest_record list option"

text \<open>
  What the program does to the outside world, in order: its log lines, the requests it
  issues and the files it reads and writes. \<open>Call\<close> and \<open>Settle\<close> mark the call of
  \<^verbatim>\<open>downloadPdf\<close> for a sequence index and the settling of the promise it returned.
\<close>

datatype event =
    LogFetchingPage
  | LogFound nat
  | LogPageError
  | Call nat
  | Settle nat
  | LogSkip string
  | LogDownloading nat string
  | HttpGet string
  | LogDone string
  | Hash path
  | WriteChecksums "(string \<times> string) list"
  | LogError string
  | WriteIndex "manifest_record list"
  | LogAllSaved
  | LogNoChecksums
  | LogVerifying
  | ReadDir
  | Probe path
  | LogMissing string
  | LogCorrupted string
  | LogOK string
  | LogComplete
  | LogSomeBad
  | LogAllIntact

text \<open>
  What the outside world does to the program. \<open>transfer env idx\<close> is the fate of the
  request and of the write stream of the task with sequence index \<open>idx\<close>: the request is
  rejected, or the writer reports an error (leaving nothing, or the bytes written so far,
  at the file's path), or the whole body is written. \<open>read_fails\<close> says for which paths
  the read stream of \<^verbatim>\<open>generateChecksum\<close> reports an error. \<open>picks\<close> is the order in
  which the awaited operations of one group complete. \<open>md5_hex\<close> stands for
  \<^verbatim>\<open>crypto.createHash('md5')\<close> followed by \<^verbatim>\<open>digest('hex')\<close>, \<open>page\<close> for the
  \<^verbatim>\<open>href\<close>s the selector finds on the listing page (\<open>None\<close>: the request threw).
\<close>

datatype transfer = FetchFails | WriteFails "bytes option" | Fetched bytes

record env =
  md5_hex :: "bytes \<Rightarrow> string"
  page :: "string list option"
  transfer :: "nat \<Rightarrow> transfer"
  read_fails :: "path \<Rightarrow> bool"
  picks :: "nat \<Rightarrow> nat list"

text \<open>
  The state of one run of \<^verbatim>\<open>downloadAllPdfs\<close>: the disk, the two objects the run
  shares among its tasks, and the trace so far.
\<close>

record run = disk +
  checksums :: "(string \<times> string) list"
  indexData :: "manifest_record list"
  trace :: "event list"

definition emit :: "event list \<Rightarrow> 'a run_scheme \<Rightarrow> 'a run_scheme" where
  "emit evs rs = rs\<lparr>trace := trace rs @ evs\<rparr>"

section \<open>Resource discovery\<close>

definition startsWith :: "string \<Rightarrow> string \<Rightarrow> bool" where
  "startsWith s pre = (take (length pre) s = pre)"

definition absolute :: "string \<Rightarrow> string" where
  "absolute pdfUrl =
     (if startsWith pdfUrl ''/'' then ''https://www.archives.gov'' @ pdfUrl else pdfUrl)"

definition getPdfLinks :: "env \<Rightarrow> string list \<times> event list" where
  "getPdfLinks env =
     (case page env of
        None \<Rightarrow> ([], [LogFetchingPage, LogPageError])
      | Some hrefs \<Rightarrow>
          (let links = map absolute hrefs
           in (links, [LogFetchingPage, LogFound (length links)])))"

section \<open>Batch folders\<close>

definition show_digit :: "nat \<Rightarrow> char" where
  "show_digit n = ''0123456789'' ! n"

fun show_nat :: "nat \<Rightarrow> string" where
  "show_nat n =
     (if n < 10 then [show_digit n]
      else show_nat (n div 10) @ [show_digit (n mod 10)])"

declare show_nat.simps [simp del]

definition batchNumber :: "nat \<Rightarrow> nat" where
  "batchNumber idx = idx div 500 + 1"

definition batchFolderName :: "nat \<Rightarrow> string" where
  "batchFolderName idx = ''Batch_'' @ show_nat (batchNumber idx)"

definition ensureDir :: "string \<Rightarrow> string list \<Rightarrow> string list" where
  "ensureDir d ds = (if d \<in> set ds then ds else ds @ [d])"

definition getBatchFolder :: "nat \<Rightarrow> 'a run_scheme \<Rightarrow> string \<times> 'a run_scheme" where
  "getBatchFolder idx rs =
     (let batchFolder = batchFolderName idx
      in (batchFolder, rs\<lparr>dirs := ensureDir batchFolder (dirs rs)\<rparr>))"

section \<open>Checksums\<close>

datatype io_error = ENOENT | EIO

definition generateChecksum :: "env \<Rightarrow> 'a disk_scheme \<Rightarrow> path \<Rightarrow> io_error + string" where
  "generateChecksum env d filePath =
     (case files d filePath of
        None \<Rightarrow> Inl ENOENT
      | Some content \<Rightarrow>
          if read_fails env filePath then Inl EIO else Inr (md5_hex env content))"

definition statSize :: "'a disk_scheme \<Rightarrow> path \<Rightarrow> io_error + nat" where
  "statSize d filePath =
     (case files d filePath of None \<Rightarrow> Inl ENOENT | Some content \<Rightarrow> Inr (length content))"

section \<open>Downloading one resource\<close>

text \<open>
  \<^verbatim>\<open>path.basename\<close>: trailing slashes are dropped, then everything up to the last
  slash.
\<close>

definition basename :: "string \<Rightarrow> string" where
  "basename p =
     rev (takeWhile (\<lambda>c. c \<noteq> CHR ''/'') (dropWhile (\<lambda>c. c = CHR ''/'') (rev p)))"

definition filePathOf :: "nat \<Rightarrow> string \<Rightarrow> path" where
  "filePathOf idx url = (batchFolderName idx, basename url)"

text \<open>
  \<^verbatim>\<open>downloadPdf\<close> is an async function: it runs up to its first \<^verbatim>\<open>await\<close> when it
  is called, and goes on each time the operation it waits for completes. A task is the
  call's arguments with the point where it waits.

  The failures of a task are the ones its \<^verbatim>\<open>try\<close> block sees: the request is rejected,
  the write stream emits \<^verbatim>\<open>error\<close>, the read stream of \<^verbatim>\<open>generateChecksum\<close> emits
  \<^verbatim>\<open>error\<close>, \<^verbatim>\<open>statSync\<close> throws. The file appears at its path when the write stream
  finishes or fails; \<^verbatim>\<open>mkdir\<close> and the writes of the two JSON files succeed. An error of
  the response stream is not forwarded by \<^verbatim>\<open>pipe\<close> and is not part of the model.
\<close>

datatype pc = AwaitFetch | AwaitWrite | AwaitHash | Settled

datatype task = Task (t_idx: nat) (t_url: string) (t_pc: pc)

definition catch_error :: "string \<Rightarrow> nat \<Rightarrow> 'a run_scheme \<Rightarrow> 'a run_scheme" where
  "catch_error fileName idx rs = emit [LogError fileName, Settle idx] rs"

definition downloadPdf :: "string \<Rightarrow> nat \<Rightarrow> 'a run_scheme \<Rightarrow> task \<times> 'a run_scheme" where
  "downloadPdf url idx rs0 =
     (let fileName = basename url;
          (batchFolder, rs) = getBatchFolder idx (emit [Call idx] rs0);
          filePath = (batchFolder, fileName)
      in if files rs filePath \<noteq> None
         then (Task idx url Settled, emit [LogSkip fileName, Settle idx] rs)
         else (Task idx url AwaitFetch, emit [LogDownloading idx fileName, HttpGet url] rs))"

fun resume :: "env \<Rightarrow> task \<Rightarrow> 'a run_scheme \<Rightarrow> task \<times> 'a run_scheme" where
  "resume env (Task idx url AwaitFetch) rs =
     (case transfer env idx of
        FetchFails \<Rightarrow> (Task idx url Settled, catch_error (basename url) idx rs)
      | _ \<Rightarrow> (Task idx url AwaitWrite, rs))"
| "resume env (Task idx url AwaitWrite) rs =
     (let fileName = basename url; filePath = filePathOf idx url
      in case transfer env idx of
           Fetched body \<Rightarrow>
             (Task idx url AwaitHash,
              emit [LogDone fileName, Hash filePath]
                (rs\<lparr>files := (files rs)(filePath \<mapsto> body)\<rparr>))
         | WriteFails None \<Rightarrow> (Task idx url Settled, catch_error fileName idx rs)
         | WriteFails (Some part) \<Rightarrow>
             (Task idx url Settled,
              catch_error fileName idx (rs\<lparr>files := (files rs)(filePath \<mapsto> part)\<rparr>))
         | FetchFails \<Rightarrow> (Task idx url Settled, catch_error fileName idx rs))"
| "resume env (Task idx url AwaitHash) rs =
     (let fileName = basename url; filePath = filePathOf idx url
      in case generateChecksum env rs filePath of
           Inl e \<Rightarrow> (Task idx url Settled, catch_error fileName idx rs)
         | Inr checksum \<Rightarrow>
             (let rs1 = rs\<lparr>checksums := AList.update fileName checksum (checksums rs)\<rparr>
              in case statSize rs1 filePath of
                   Inl e \<Rightarrow> (Task idx url Settled, catch_error fileName idx rs1)
                 | Inr sz \<Rightarrow>
                     (let rs2 = rs1\<lparr>indexData := indexData rs1 @
                            [\<lparr>r_fileName = fileName, r_url = url, r_size = sz,
                              r_checksum = checksum\<rparr>]\<rparr>;
                          rs3 = emit [WriteChecksums (checksums rs2), Settle idx]
                                  (rs2\<lparr>checksum_file := Some (checksums rs2)\<rparr>)
                      in (Task idx url Settled, rs3))))"
| "resume env (Task idx url Settled) rs = (Task idx url Settled, rs)"

section \<open>Downloading everything, five at a time\<close>

definition CHUNK_SIZE :: nat where
  "CHUNK_SIZE = 5"

text \<open>
  \<^verbatim>\<open>.map((url, idx) => downloadPdf(url, i + idx + 1, ...))\<close>: the calls are made one
  after the other, each up to its first \<^verbatim>\<open>await\<close>; \<open>n\<close> is \<^verbatim>\<open>i + idx\<close>.
\<close>

fun start_chunk :: "nat \<Rightarrow> string list \<Rightarrow> 'a run_scheme \<Rightarrow> task list \<times> 'a run_scheme" where
  "start_chunk n [] rs = ([], rs)"
| "start_chunk n (url # urls) rs =
     (let (t, rs1) = downloadPdf url (n + 1) rs;
          (ts, rs2) = start_chunk (n + 1) urls rs1
      in (t # ts, rs2))"

text \<open>
  \<^verbatim>\<open>await Promise.all(chunk)\<close>: the tasks of the group go on in the order in which
  their awaited operations complete; a pick selects the task that goes on next (a settled
  task stays as it is). After the picks of the environment every task of the group is
  picked three more times, in the order of the group, which takes any task left to its
  end: every order of completion is some list of picks, and the group always finishes.
\<close>

fun run_picks :: "env \<Rightarrow> nat list \<Rightarrow> task list \<Rightarrow> 'a run_scheme \<Rightarrow> task list \<times> 'a run_scheme" where
  "run_picks env [] ts rs = (ts, rs)"
| "run_picks env (k # ks) ts rs =
     (if ts = [] then (ts, rs)
      else (let i = k mod length ts;
                (t, rs1) = resume env (ts ! i) rs
            in run_picks env ks (ts[i := t]) rs1))"

definition rest_picks :: "nat \<Rightarrow> nat list" where
  "rest_picks n = concat (map (\<lambda>i. [i, i, i]) [0..<n])"

definition promise_all :: "env \<Rightarrow> nat list \<Rightarrow> task list \<Rightarrow> 'a run_scheme \<Rightarrow> task list \<times> 'a run_scheme" where
  "promise_all env ks ts rs = run_picks env (ks @ rest_picks (length ts)) ts rs"

function download_loop :: "env \<Rightarrow> string list \<Rightarrow> nat \<Rightarrow> 'a run_scheme \<Rightarrow> 'a run_scheme" where
  "download_loop env pdfLinks i rs =
     (if i < length pdfLinks
      then (let (ts, rs1) = start_chunk i (take CHUNK_SIZE (drop i pdfLinks)) rs;
                (ts2, rs2) = promise_all env (picks env i) ts rs1
            in download_loop env pdfLinks (i + CHUNK_SIZE) rs2)
      else rs)"
  by pat_completeness auto
termination
  by (relation "measure (\<lambda>(env, pdfLinks, i, rs). length pdfLinks - i)")
     (auto simp: CHUNK_SIZE_def)

declare download_loop.simps [simp del]

definition stored :: "'a disk_scheme \<Rightarrow> (string \<times> string) list" where
  "stored d = (case checksum_file d of None \<Rightarrow> [] | Some c \<Rightarrow> c)"

definition begin_run :: "disk \<Rightarrow> event list \<Rightarrow> run" where
  "begin_run d evs =
     \<lparr>dirs = dirs d, files = files d, checksum_file = checksum_file d,
      index_file = index_file d, checksums = stored d, indexData = [], trace = evs\<rparr>"

definition save_index :: "run \<Rightarrow> run" where
  "save_index rs =
     emit [WriteIndex (indexData rs), LogAllSaved] (rs\<lparr>index_file := Some (indexData rs)\<rparr>)"

definition downloadAllPdfs :: "env \<Rightarrow> disk \<Rightarrow> run" where
  "downloadAllPdfs env d =
     (let (pdfLinks, evs) = getPdfLinks env
      in save_index (download_loop env pdfLinks 0 (begin_run d evs)))"

definition disk_of :: "run \<Rightarrow> disk" where
  "disk_of rs =
     \<lparr>dirs = dirs rs, files = files rs, checksum_file = checksum_file rs,
      index_file = index_file rs\<rparr>"

section \<open>Verifying\<close>

datatype verdict = OK | Corrupted | Missing

text \<open>The inner loop of \<^verbatim>\<open>verifyChecksums\<close>: the first batch folder that holds the file.\<close>

fun find_file :: "disk \<Rightarrow> string list \<Rightarrow> string \<Rightarrow> path option \<times> event list" where
  "find_file d [] fileName = (None, [])"
| "find_file d (batchFolder # rest) fileName =
     (let possiblePath = (batchFolder, fileName)
      in if files d possiblePath \<noteq> None then (Some possiblePath, [Probe possiblePath])
         else (let (r, evs) = find_file d rest fileName in (r, Probe possiblePath # evs)))"

definition batchFolders :: "disk \<Rightarrow> string list" where
  "batchFolders d = filter (\<lambda>folder. startsWith folder ''Batch_'') (dirs d)"

definition check_entry :: "env \<Rightarrow> disk \<Rightarrow> string \<times> string \<Rightarrow> io_error + verdict \<times> event list" where
  "check_entry env d entry =
     (let fileName = fst entry; originalHash = snd entry;
          (filePath, evs) = find_file d (batchFolders d) fileName
      in case filePath of
           None \<Rightarrow> Inr (Missing, ReadDir # evs @ [LogMissing fileName])
         | Some p \<Rightarrow>
             (case generateChecksum env d p of
                Inl e \<Rightarrow> Inl e
              | Inr newHash \<Rightarrow>
                  if newHash \<noteq> originalHash
                  then Inr (Corrupted, ReadDir # evs @ [Hash p, LogCorrupted fileName])
                  else Inr (OK, ReadDir # evs @ [Hash p, LogOK fileName])))"

text \<open>
  The outer loop. A read error while hashing rejects the promise of
  \<^verbatim>\<open>generateChecksum\<close>; nothing in \<^verbatim>\<open>verifyChecksums\<close> catches it, so the pass ends
  there.
\<close>

fun verify_entries ::
  "env \<Rightarrow> disk \<Rightarrow> (string \<times> string) list \<Rightarrow> string list \<Rightarrow> event list
     \<Rightarrow> io_error + string list \<times> event list" where
  "verify_entries env d [] corruptedFiles tr = Inr (corruptedFiles, tr)"
| "verify_entries env d (entry # rest) corruptedFiles tr =
     (case check_entry env d entry of
        Inl e \<Rightarrow> Inl e
      | Inr (v, evs) \<Rightarrow>
          verify_entries env d rest
            (if v = OK then corruptedFiles else corruptedFiles @ [fst entry]) (tr @ evs))"

definition verifyChecksums :: "env \<Rightarrow> disk \<Rightarrow> io_error + string list \<times> event list" where
  "verifyChecksums env d =
     (case checksum_file d of
        None \<Rightarrow> Inr ([], [LogNoChecksums])
      | Some cs \<Rightarrow>
          (case verify_entries env d cs [] [LogVerifying] of
             Inl e \<Rightarrow> Inl e
           | Inr (corruptedFiles, tr) \<Rightarrow>
               Inr (corruptedFiles,
                    tr @ [LogComplete, if corruptedFiles \<noteq> [] then LogSomeBad else LogAllIntact])))"

section \<open>Notions used in the statements\<close>

definition t_name :: "task \<Rightarrow> string" where
  "t_name t = basename (t_url t)"

definition t_path :: "task \<Rightarrow> path" where
  "t_path t = filePathOf (t_idx t) (t_url t)"

definition succeeds :: "env \<Rightarrow> nat \<Rightarrow> string \<Rightarrow> bool" where
  "succeeds env idx url =
     (case transfer env idx of
        Fetched body \<Rightarrow> \<not> read_fails env (filePathOf idx url)
      | _ \<Rightarrow> False)"

definition settle :: "task \<Rightarrow> task" where
  "settle t = Task (t_idx t) (t_url t) Settled"

definition steps_left :: "task \<Rightarrow> nat" where
  "steps_left t = (case t_pc t of AwaitFetch \<Rightarrow> 3 | AwaitWrite \<Rightarrow> 2 | AwaitHash \<Rightarrow> 1 | Settled \<Rightarrow> 0)"

fun calls :: "event list \<Rightarrow> nat list" where
  "calls [] = []"
| "calls (Call i # evs) = i # calls evs"
| "calls (e # evs) = calls evs"

fun snapshots :: "event list \<Rightarrow> (string \<times> string) list list" where
  "snapshots [] = []"
| "snapshots (WriteChecksums c # evs) = c # snapshots evs"
| "snapshots (e # evs) = snapshots evs"

definition in_flight :: "event list \<Rightarrow> nat list" where
  "in_flight tr = filter (\<lambda>i. Settle i \<notin> set tr) (calls tr)"

definition rkey :: "manifest_record \<Rightarrow> string \<times> string" where
  "rkey r = (r_fileName r, r_url r)"

definition ukey :: "nat \<times> string \<Rightarrow> string \<times> string" where
  "ukey p = (basename (snd p), snd p)"

definition newly :: "env \<Rightarrow> event list \<Rightarrow> nat \<times> string \<Rightarrow> bool" where
  "newly env tr p =
     (LogDownloading (fst p) (basename (snd p)) \<in> set tr \<and> succeeds env (fst p) (snd p))"

definition pend :: "env \<Rightarrow> task \<Rightarrow> (string \<times> string) multiset" where
  "pend env t =
     (if t_pc t \<noteq> Settled \<and> succeeds env (t_idx t) (t_url t)
      then {#(t_name t, t_url t)#} else {#})"

definition task_inv :: "env \<Rightarrow> 'a run_scheme \<Rightarrow> task \<Rightarrow> bool" where
  "task_inv env rs t \<longleftrightarrow>
     (t_pc t \<noteq> Settled \<longrightarrow> LogDownloading (t_idx t) (t_name t) \<in> set (trace rs)) \<and>
     (t_pc t = AwaitHash \<longrightarrow>
        (\<exists>body. transfer env (t_idx t) = Fetched body) \<and> files rs (t_path t) \<noteq> None) \<and>
     (t_pc t = Settled \<longrightarrow> Settle (t_idx t) \<in> set (trace rs)) \<and>
     (t_pc t = Settled \<and> LogDownloading (t_idx t) (t_name t) \<in> set (trace rs) \<and>
        \<not> succeeds env (t_idx t) (t_url t) \<longrightarrow> LogError (t_name t) \<in> set (trace rs)) \<and>
     (t_pc t = Settled \<and> LogDownloading (t_idx t) (t_name t) \<in> set (trace rs) \<and>
        (\<exists>part. transfer env (t_idx t) = WriteFails (Some part)) \<longrightarrow>
        files rs (t_path t) \<noteq> None)"

definition quiet :: "'a run_scheme \<Rightarrow> 'a run_scheme \<Rightarrow> bool" where
  "quiet rs rs' \<longleftrightarrow>
     (\<exists>evs. trace rs' = trace rs @ evs) \<and>
     calls (trace rs') = calls (trace rs) \<and>
     (\<forall>i f. LogDownloading i f \<in> set (trace rs') \<longrightarrow> LogDownloading i f \<in> set (trace rs)) \<and>
     (\<forall>p. files rs p \<noteq> None \<longrightarrow> files rs' p \<noteq> None) \<and>
     dirs rs' = dirs rs \<and> index_file rs' = index_file rs"

definition trace_inv :: "event list \<Rightarrow> bool" where
  "trace_inv tr \<longleftrightarrow>
     (\<forall>u. HttpGet u \<in> set tr \<longrightarrow> (\<exists>i. LogDownloading i (basename u) \<in> set tr)) \<and>
     (\<forall>b f. Hash (b, f) \<in> set tr \<longrightarrow> (\<exists>i. LogDownloading i f \<in> set tr)) \<and>
     (\<forall>r. WriteIndex r \<notin> set tr)"

definition store_inv :: "disk \<Rightarrow> 'a run_scheme \<Rightarrow> bool" where
  "store_inv d rs \<longleftrightarrow>
     fst ` set (checksums rs) = fst ` set (stored d) \<union> r_fileName ` set (indexData rs) \<and>
     (\<forall>g. g \<notin> r_fileName ` set (indexData rs) \<longrightarrow>
        map_of (checksums rs) g = map_of (stored d) g) \<and>
     length (snapshots (trace rs)) = length (indexData rs) \<and>
     (\<forall>k<length (indexData rs).
        fst ` set (snapshots (trace rs) ! k) =
          fst ` set (stored d) \<union> r_fileName ` set (take (Suc k) (indexData rs)) \<and>
        map_of (snapshots (trace rs) ! k) (r_fileName (indexData rs ! k)) =
          Some (r_checksum (indexData rs ! k))) \<and>
     checksum_file rs =
       (if indexData rs = [] then checksum_file d else Some (last (snapshots (trace rs)))) \<and>
     (indexData rs \<noteq> [] \<longrightarrow> last (snapshots (trace rs)) = checksums rs) \<and>
     (distinct (map fst (stored d)) \<longrightarrow> distinct (map fst (checksums rs)))"

definition bounded_flight :: "event list \<Rightarrow> bool" where
  "bounded_flight tr \<longleftrightarrow> (\<forall>k. length (in_flight (take k tr)) \<le> CHUNK_SIZE)"

definition barrier :: "event list \<Rightarrow> bool" where
  "barrier tr \<longleftrightarrow>
     (\<forall>k j i. k < length tr \<and> tr ! k = Call j \<and> 1 \<le> i \<and>
        (i - 1) div CHUNK_SIZE < (j - 1) div CHUNK_SIZE \<longrightarrow> Settle i \<in> set (take k tr))"

definition done_inv :: "env \<Rightarrow> 'a run_scheme \<Rightarrow> nat \<times> string \<Rightarrow> bool" where
  "done_inv env rs p \<longleftrightarrow>
     (LogDownloading (fst p) (basename (snd p)) \<in> set (trace rs) \<and>
        \<not> succeeds env (fst p) (snd p) \<longrightarrow> LogError (basename (snd p)) \<in> set (trace rs)) \<and>
     (LogDownloading (fst p) (basename (snd p)) \<in> set (trace rs) \<and>
        (\<exists>part. transfer env (fst p) = WriteFails (Some part)) \<longrightarrow>
        files rs (filePathOf (fst p) (snd p)) \<noteq> None)"

definition loop_inv :: "env \<Rightarrow> disk \<Rightarrow> string list \<Rightarrow> nat \<Rightarrow> 'a run_scheme \<Rightarrow> bool" where
  "loop_inv env d links m rs \<longleftrightarrow>
     store_inv d rs \<and> trace_inv (trace rs) \<and>
     (\<forall>p. files d p \<noteq> None \<longrightarrow> files rs p \<noteq> None) \<and>
     mset (map rkey (indexData rs)) =
       mset (map ukey (filter (newly env (trace rs)) (enumerate 1 (take m links)))) \<and>
     (\<forall>i f. LogDownloading i f \<in> set (trace rs) \<longrightarrow>
        (\<exists>u. (i, u) \<in> set (enumerate 1 (take m links)) \<and> f = basename u \<and>
             files d (filePathOf i u) = None)) \<and>
     (\<forall>p\<in>set (enumerate 1 (take m links)). done_inv env rs p) \<and>
     calls (trace rs) = [1..<Suc (min m (length links))] \<and>
     (\<forall>i\<in>set (calls (trace rs)). Settle i \<in> set (trace rs)) \<and>
     bounded_flight (trace rs) \<and> barrier (trace rs)"

definition discovered :: "env \<Rightarrow> string list" where
  "discovered env = fst (getPdfLinks env)"

fun download_runs :: "env list \<Rightarrow> disk \<Rightarrow> disk" where
  "download_runs [] d = d"
| "download_runs (env # envs) d = download_runs envs (disk_of (downloadAllPdfs env d))"


section \<open>An example run\<close>

text \<open>
  Six locators, so two groups. The digest of the examples is the reversal of the bytes;
  any function would do. The second resource fails while it is written, the third is
  never fetched, the fifth is on disk already without a checksum.
\<close>

definition env_ex :: env where
  "env_ex =
     \<lparr>md5_hex = rev,
      page = Some [''/files/a.pdf'', ''https://x/b.pdf'', ''/c.pdf'', ''/d.pdf'', ''/e.pdf'',
                   ''/f.pdf''],
      transfer = (\<lambda>i. if i = 2 then WriteFails (Some ''%PD'')
                      else if i = 3 then FetchFails else Fetched ''%PDF-1''),
      read_fails = (\<lambda>p. False),
      picks = (\<lambda>i. [2, 0, 1, 0])\<rparr>"

definition disk_ex :: disk where
  "disk_ex =
     \<lparr>dirs = [''Batch_1''],
      files = [(''Batch_1'', ''e.pdf'') \<mapsto> ''old''],
      checksum_file = Some [(''z.pdf'', ''zz'')],
      index_file = None\<rparr>"

definition run_ex :: run where
  "run_ex = downloadAllPdfs env_ex disk_ex"


section \<open>Partition numbers\<close>

lemma batchNumber_eq: "batchNumber idx = idx div 500 + 1"
  by (simp add: batchNumber_def)

lemma batchFolderName_499: "batchFolderName 499 = ''Batch_1''"
  by (simp add: batchNumber_def batchFolderName_def show_nat.simps show_digit_def)

lemma batchFolderName_500: "batchFolderName 500 = ''Batch_2''"
  by (simp add: batchNumber_def batchFolderName_def show_nat.simps show_digit_def)

lemma batchNumber_first_folder: "batchNumber i = 1 \<longleftrightarrow> i < 500"
  unfolding batchNumber_def by (simp add: div_eq_0_iff)

lemma batchNumber_vs_spec:
  "0 < i \<Longrightarrow> batchNumber i = (i - 1) div 500 + 1 \<longleftrightarrow> i mod 500 \<noteq> 0"
  unfolding batchNumber_def
  by (cases i) (auto simp: div_Suc mod_Suc split: if_splits)

text \<open>
  Claim C1. The spec puts the resource at 1-based position \<open>i\<close> into partition
  \<open>(i - 1) div 500 + 1\<close>, so that positions 1..500 share partition 1. The code divides
  the 1-based index itself: position 500 is the first one of \<^verbatim>\<open>Batch_2\<close>, and
  \<^verbatim>\<open>Batch_1\<close> holds the 499 positions before it.
\<close>

theorem batch_of_position_500:
  "batchNumber 500 = 2 \<and> (500 - 1) div 500 + 1 = (1::nat) \<and>
   batchFolderName 500 = ''Batch_2'' \<and> batchFolderName 499 = ''Batch_1''"
  by (simp add: batchNumber_def batchFolderName_499 batchFolderName_500)


section \<open>One step of one task\<close>

lemma resume_hash_missing:
  "files rs (filePathOf idx url) = None \<Longrightarrow>
   resume env (Task idx url AwaitHash) rs =
     (Task idx url Settled, catch_error (basename url) idx rs)"
  by (simp add: generateChecksum_def Let_def)

lemma resume_hash_unreadable:
  "read_fails env (filePathOf idx url) \<Longrightarrow>
   resume env (Task idx url AwaitHash) rs =
     (Task idx url Settled, catch_error (basename url) idx rs)"
  by (simp add: generateChecksum_def Let_def split: option.splits)

lemma resume_hash_done:
  "files rs (filePathOf idx url) = Some content \<Longrightarrow>
   \<not> read_fails env (filePathOf idx url) \<Longrightarrow>
   resume env (Task idx url AwaitHash) rs =
     (Task idx url Settled,
      rs\<lparr>checksum_file :=
            Some (AList.update (basename url) (md5_hex env content) (checksums rs)),
          checksums := AList.update (basename url) (md5_hex env content) (checksums rs),
          indexData := indexData rs @
            [\<lparr>r_fileName = basename url, r_url = url, r_size = length content,
              r_checksum = md5_hex env content\<rparr>],
          trace := trace rs @
            [WriteChecksums (AList.update (basename url) (md5_hex env content) (checksums rs)),
             Settle idx]\<rparr>)"
  by (simp add: generateChecksum_def statSize_def emit_def Let_def)

lemma resume_cases [consumes 1, case_names settled fetch_fail fetch_ok write_ok write_fail write_part hash_fail hash_ok]:
  assumes "resume env t rs = (t', rs')"
  obtains
    "t_pc t = Settled" "t' = t" "rs' = rs"
  | "t_pc t = AwaitFetch" "transfer env (t_idx t) = FetchFails" "t' = settle t"
      "rs' = rs\<lparr>trace := trace rs @ [LogError (t_name t), Settle (t_idx t)]\<rparr>"
  | "t_pc t = AwaitFetch" "transfer env (t_idx t) \<noteq> FetchFails"
      "t' = Task (t_idx t) (t_url t) AwaitWrite" "rs' = rs"
  | body where "t_pc t = AwaitWrite" "transfer env (t_idx t) = Fetched body"
      "t' = Task (t_idx t) (t_url t) AwaitHash"
      "rs' = rs\<lparr>files := (files rs)(t_path t \<mapsto> body),
                 trace := trace rs @ [LogDone (t_name t), Hash (t_path t)]\<rparr>"
  | "t_pc t = AwaitWrite" "\<forall>body. transfer env (t_idx t) \<noteq> Fetched body"
      "\<forall>part. transfer env (t_idx t) \<noteq> WriteFails (Some part)" "t' = settle t"
      "rs' = rs\<lparr>trace := trace rs @ [LogError (t_name t), Settle (t_idx t)]\<rparr>"
  | part where "t_pc t = AwaitWrite" "transfer env (t_idx t) = WriteFails (Some part)"
      "t' = settle t"
      "rs' = rs\<lparr>files := (files rs)(t_path t \<mapsto> part),
                 trace := trace rs @ [LogError (t_name t), Settle (t_idx t)]\<rparr>"
  | "t_pc t = AwaitHash" "files rs (t_path t) = None \<or> read_fails env (t_path t)" "t' = settle t"
      "rs' = rs\<lparr>trace := trace rs @ [LogError (t_name t), Settle (t_idx t)]\<rparr>"
  | content where "t_pc t = AwaitHash" "files rs (t_path t) = Some content"
      "\<not> read_fails env (t_path t)" "t' = settle t"
      "rs' = rs\<lparr>checksum_file :=
                   Some (AList.update (t_name t) (md5_hex env content) (checksums rs)),
                 checksums := AList.update (t_name t) (md5_hex env content) (checksums rs),
                 indexData := indexData rs @
                   [\<lparr>r_fileName = t_name t, r_url = t_url t, r_size = length content,
                     r_checksum = md5_hex env content\<rparr>],
                 trace := trace rs @
                   [WriteChecksums (AList.update (t_name t) (md5_hex env content) (checksums rs)),
                    Settle (t_idx t)]\<rparr>"
proof (cases t)
  case (Task idx url pc)
  show ?thesis
  proof (cases pc)
    case AwaitFetch
    with Task assms that(2,3) show ?thesis
      by (cases "transfer env idx")
         (auto simp: settle_def t_name_def catch_error_def emit_def)
  next
    case AwaitWrite
    with Task assms that(4,5,6) show ?thesis
      by (cases "transfer env idx")
         (auto simp: settle_def t_name_def t_path_def catch_error_def emit_def Let_def
               split: option.splits)
  next
    case AwaitHash
    show ?thesis
    proof (cases "files rs (filePathOf idx url)")
      case None
      with Task AwaitHash assms that(7) show ?thesis
        by (simp add: resume_hash_missing settle_def t_name_def t_path_def catch_error_def
            emit_def del: resume.simps)
    next
      case (Some content)
      show ?thesis
      proof (cases "read_fails env (filePathOf idx url)")
        case True
        with Task AwaitHash assms that(7) show ?thesis
          by (simp add: resume_hash_unreadable settle_def t_name_def t_path_def
              catch_error_def emit_def del: resume.simps)
      next
        case False
        with Some Task AwaitHash assms that(8) [of content] show ?thesis
          by (simp add: resume_hash_done settle_def t_name_def t_path_def del: resume.simps)
      qed
    qed
  next
    case Settled
    with Task assms have "t_pc t = Settled" "t' = t" "rs' = rs" by auto
    then show ?thesis by (rule that(1))
  qed
qed

lemma resume_same_call:
  "resume env t rs = (t', rs') \<Longrightarrow> t_idx t' = t_idx t \<and> t_url t' = t_url t"
  by (cases rule: resume_cases) (auto simp: settle_def)

lemma resume_progress:
  "resume env t rs = (t', rs') \<Longrightarrow> steps_left t' \<le> steps_left t - 1"
  by (cases rule: resume_cases) (auto simp: settle_def steps_left_def)

section \<open>The tasks of one group\<close>

lemma run_picks_invariant:
  assumes step: "\<And>ts rs i t' rs'. P ts rs \<Longrightarrow> i < length ts \<Longrightarrow>
                   resume env (ts ! i) rs = (t', rs') \<Longrightarrow> P (ts[i := t']) rs'"
  shows "P ts rs \<Longrightarrow> run_picks env ks ts rs = (ts', rs') \<Longrightarrow> P ts' rs'"
proof (induction ks arbitrary: ts rs)
  case Nil
  then show ?case by simp
next
  case (Cons k ks)
  show ?case
  proof (cases "ts = []")
    case True
    with Cons.prems show ?thesis by simp
  next
    case False
    then have i: "k mod length ts < length ts" by simp
    obtain t1 rs1 where r: "resume env (ts ! (k mod length ts)) rs = (t1, rs1)"
      by (cases "resume env (ts ! (k mod length ts)) rs")
    from Cons.prems(2) False r
    have "run_picks env ks (ts[k mod length ts := t1]) rs1 = (ts', rs')"
      by (simp add: Let_def)
    moreover from step [OF Cons.prems(1) i r] have "P (ts[k mod length ts := t1]) rs1" .
    ultimately show ?thesis by (rule Cons.IH [rotated])
  qed
qed

lemma run_picks_append:
  "run_picks env (ks @ ks') ts rs =
     (case run_picks env ks ts rs of (ts1, rs1) \<Rightarrow> run_picks env ks' ts1 rs1)"
proof (induction ks arbitrary: ts rs)
  case Nil
  show ?case by simp
next
  case (Cons k ks)
  show ?case
  proof (cases "ts = []")
    case True
    then show ?thesis by (cases ks') simp_all
  next
    case False
    then show ?thesis
      by (simp add: Let_def Cons.IH split: prod.splits)
  qed
qed

lemma run_picks_length:
  "run_picks env ks ts rs = (ts', rs') \<Longrightarrow> length ts' = length ts"
  by (rule run_picks_invariant [where P = "\<lambda>us _. length us = length ts"]) simp_all

lemma run_picks_same_calls:
  assumes "run_picks env ks ts rs = (ts', rs')"
  shows "length ts' = length ts \<and>
         (\<forall>j<length ts. t_idx (ts' ! j) = t_idx (ts ! j) \<and> t_url (ts' ! j) = t_url (ts ! j))"
proof (rule run_picks_invariant
    [where P = "\<lambda>us _. length us = length ts \<and>
         (\<forall>j<length ts. t_idx (us ! j) = t_idx (ts ! j) \<and> t_url (us ! j) = t_url (ts ! j))",
     OF _ _ assms])
  fix us :: "task list" and rs :: "'a run_scheme" and i t' rs'
  assume a: "length us = length ts \<and>
         (\<forall>j<length ts. t_idx (us ! j) = t_idx (ts ! j) \<and> t_url (us ! j) = t_url (ts ! j))"
    and i: "i < length us" and r: "resume env (us ! i) rs = (t', rs')"
  from resume_same_call [OF r] i a
  show "length (us[i := t']) = length ts \<and>
         (\<forall>j<length ts. t_idx (us[i := t'] ! j) = t_idx (ts ! j) \<and>
            t_url (us[i := t'] ! j) = t_url (ts ! j))"
    by (simp add: nth_list_update)
qed simp

lemma run_picks_steps_left:
  "run_picks env ks ts rs = (ts', rs') \<Longrightarrow> j < length ts \<Longrightarrow>
   steps_left (ts' ! j) \<le> steps_left (ts ! j) - count_list (map (\<lambda>k. k mod length ts) ks) j"
proof (induction ks arbitrary: ts rs)
  case Nil
  then show ?case by simp
next
  case (Cons k ks)
  then have ne: "ts \<noteq> []" by auto
  let ?i = "k mod length ts"
  obtain t1 rs1 where r: "resume env (ts ! ?i) rs = (t1, rs1)"
    by (cases "resume env (ts ! ?i) rs")
  from Cons.prems(1) ne r
  have run: "run_picks env ks (ts[?i := t1]) rs1 = (ts', rs')"
    by (simp add: Let_def)
  from Cons.IH [OF run] Cons.prems(2)
  have ih: "steps_left (ts' ! j) \<le>
            steps_left (ts[?i := t1] ! j) - count_list (map (\<lambda>k. k mod length ts) ks) j"
    by simp
  show ?case
  proof (cases "?i = j")
    case True
    with resume_progress [OF r] Cons.prems(2)
    have "steps_left (ts[?i := t1] ! j) \<le> steps_left (ts ! j) - 1" by simp
    with ih True show ?thesis by simp
  next
    case False
    with ih show ?thesis by simp
  qed
qed

lemma count_rest_picks: "j < n \<Longrightarrow> count_list (rest_picks n) j = 3"
  by (induction n) (auto simp: rest_picks_def less_Suc_eq)

lemma map_mod_rest_picks: "map (\<lambda>k. k mod n) (rest_picks n) = rest_picks n"
  by (rule map_idI) (auto simp: rest_picks_def)

lemma steps_left_le_3: "steps_left t \<le> 3"
  by (cases "t_pc t") (simp_all add: steps_left_def)

lemma steps_left_0: "steps_left t = 0 \<longleftrightarrow> t_pc t = Settled"
  by (cases "t_pc t") (simp_all add: steps_left_def)

lemma promise_all_settles:
  assumes "promise_all env ks ts rs = (ts', rs')"
  shows "\<forall>t\<in>set ts'. t_pc t = Settled"
proof -
  obtain ts1 rs1 where a: "run_picks env ks ts rs = (ts1, rs1)"
    by (cases "run_picks env ks ts rs")
  with assms have b: "run_picks env (rest_picks (length ts)) ts1 rs1 = (ts', rs')"
    by (simp add: promise_all_def run_picks_append)
  have len1: "length ts1 = length ts" using a by (rule run_picks_length)
  have len': "length ts' = length ts" using b len1 by (simp add: run_picks_length)
  have "t_pc (ts' ! j) = Settled" if j: "j < length ts'" for j
  proof -
    from j len' len1 have j1: "j < length ts1" by simp
    from run_picks_steps_left [OF b j1] len1
    have "steps_left (ts' ! j) \<le> steps_left (ts1 ! j) - count_list (rest_picks (length ts)) j"
      by (simp add: map_mod_rest_picks)
    with count_rest_picks [of j "length ts"] j len' steps_left_le_3 [of "ts1 ! j"]
    have "steps_left (ts' ! j) = 0" by simp
    then show ?thesis by (simp add: steps_left_0)
  qed
  then show ?thesis by (auto simp: in_set_conv_nth)
qed

section \<open>What a step keeps\<close>

lemma calls_append [simp]: "calls (xs @ ys) = calls xs @ calls ys"
  by (induction xs rule: calls.induct) simp_all

lemma snapshots_append [simp]: "snapshots (xs @ ys) = snapshots xs @ snapshots ys"
  by (induction xs rule: snapshots.induct) simp_all

lemma in_calls_iff: "i \<in> set (calls tr) \<longleftrightarrow> Call i \<in> set tr"
  by (induction tr rule: calls.induct) auto

lemma quiet_refl: "quiet rs rs"
  by (simp add: quiet_def)

lemma quiet_trans: "quiet a b \<Longrightarrow> quiet b c \<Longrightarrow> quiet a c"
  unfolding quiet_def by (elim conjE exE) (simp, blast)

lemma resume_quiet: "resume env t rs = (t', rs') \<Longrightarrow> quiet rs rs'"
  by (cases rule: resume_cases) (auto simp: quiet_def)

lemma task_inv_quiet:
  assumes "task_inv env rs u" and "quiet rs rs'"
  shows "task_inv env rs' u"
proof -
  from assms(2) obtain evs where tr: "trace rs' = trace rs @ evs"
    and dl: "\<And>i f. LogDownloading i f \<in> set (trace rs') \<Longrightarrow>
                   LogDownloading i f \<in> set (trace rs)"
    and fl: "\<And>p. files rs p \<noteq> None \<Longrightarrow> files rs' p \<noteq> None"
    unfolding quiet_def by blast
  from tr have sub: "\<And>e. e \<in> set (trace rs) \<Longrightarrow> e \<in> set (trace rs')" by simp
  show ?thesis
    unfolding task_inv_def
  proof (intro conjI impI)
    assume "t_pc u \<noteq> Settled"
    with assms(1) show "LogDownloading (t_idx u) (t_name u) \<in> set (trace rs')"
      by (simp add: task_inv_def sub)
  next
    assume "t_pc u = AwaitHash"
    with assms(1) show "\<exists>body. transfer env (t_idx u) = Fetched body"
      and "files rs' (t_path u) \<noteq> None"
      by (simp_all add: task_inv_def fl)
  next
    assume "t_pc u = Settled"
    with assms(1) show "Settle (t_idx u) \<in> set (trace rs')"
      by (simp add: task_inv_def sub)
  next
    assume "t_pc u = Settled \<and> LogDownloading (t_idx u) (t_name u) \<in> set (trace rs') \<and>
       \<not> succeeds env (t_idx u) (t_url u)"
    with assms(1) dl show "LogError (t_name u) \<in> set (trace rs')"
      by (simp add: task_inv_def sub)
  next
    assume "t_pc u = Settled \<and> LogDownloading (t_idx u) (t_name u) \<in> set (trace rs') \<and>
       (\<exists>part. transfer env (t_idx u) = WriteFails (Some part))"
    with assms(1) dl show "files rs' (t_path u) \<noteq> None"
      by (intro fl) (auto simp: task_inv_def)
  qed
qed

lemma resume_task_inv:
  assumes "resume env t rs = (t', rs')" and "task_inv env rs t"
  shows "task_inv env rs' t'"
  using assms
  by (cases rule: resume_cases)
     (auto simp: task_inv_def settle_def t_name_def t_path_def succeeds_def)

lemma resume_pend:
  assumes "resume env t rs = (t', rs')" and "task_inv env rs t"
  shows "mset (map rkey (indexData rs')) + pend env t' =
         mset (map rkey (indexData rs)) + pend env t"
  using assms
  by (cases rule: resume_cases)
     (auto simp: pend_def settle_def succeeds_def task_inv_def t_path_def t_name_def rkey_def
        split: transfer.splits)

lemma resume_store_inv:
  assumes "resume env t rs = (t', rs')" and "store_inv d rs"
  shows "store_inv d rs'"
  using assms
proof (cases rule: resume_cases)
  case (hash_ok content)
  let ?c = "AList.update (t_name t) (md5_hex env content) (checksums rs)"
  let ?r = "\<lparr>r_fileName = t_name t, r_url = t_url t, r_size = length content,
             r_checksum = md5_hex env content\<rparr>"
  have ck: "checksums rs' = ?c" and ix: "indexData rs' = indexData rs @ [?r]"
    and cf: "checksum_file rs' = Some ?c"
    and sn: "snapshots (trace rs') = snapshots (trace rs) @ [?c]"
    using hash_ok by simp_all
  have k: "fst ` set (checksums rs) = fst ` set (stored d) \<union> r_fileName ` set (indexData rs)"
    using assms(2) by (simp add: store_inv_def)
  have v: "map_of (checksums rs) g = map_of (stored d) g"
    if "g \<notin> r_fileName ` set (indexData rs)" for g
    using assms(2) that by (simp add: store_inv_def)
  have l: "length (snapshots (trace rs)) = length (indexData rs)"
    using assms(2) by (simp add: store_inv_def)
  have s: "fst ` set (snapshots (trace rs) ! k) =
          fst ` set (stored d) \<union> r_fileName ` set (take (Suc k) (indexData rs)) \<and>
        map_of (snapshots (trace rs) ! k) (r_fileName (indexData rs ! k)) =
          Some (r_checksum (indexData rs ! k))"
    if "k < length (indexData rs)" for k
    using assms(2) that by (simp add: store_inv_def)
  have dd: "distinct (map fst (stored d)) \<longrightarrow> distinct (map fst (checksums rs))"
    using assms(2) by (simp add: store_inv_def)
  have k': "fst ` set ?c = fst ` set (stored d) \<union> r_fileName ` set (indexData rs @ [?r])"
    using k by (auto simp: dom_update)
  have v': "map_of ?c g = map_of (stored d) g"
    if "g \<notin> r_fileName ` set (indexData rs @ [?r])" for g
    using that v [of g] by (simp add: update_conv')
  have s': "fst ` set ((snapshots (trace rs) @ [?c]) ! k) =
          fst ` set (stored d) \<union> r_fileName ` set (take (Suc k) (indexData rs @ [?r])) \<and>
        map_of ((snapshots (trace rs) @ [?c]) ! k) (r_fileName ((indexData rs @ [?r]) ! k)) =
          Some (r_checksum ((indexData rs @ [?r]) ! k))"
    if "k < length (indexData rs @ [?r])" for k
  proof (cases "k < length (indexData rs)")
    case True
    with s [of k] l show ?thesis by (simp add: nth_append)
  next
    case False
    with that have "k = length (indexData rs)" by simp
    with l k' show ?thesis by (simp add: nth_append update_conv')
  qed
  show ?thesis
    unfolding store_inv_def ck ix cf sn
  proof (intro conjI allI impI)
    show "fst ` set ?c = fst ` set (stored d) \<union> r_fileName ` set (indexData rs @ [?r])"
      by (rule k')
    show "map_of ?c g = map_of (stored d) g"
      if "g \<notin> r_fileName ` set (indexData rs @ [?r])" for g
      using that by (rule v')
    show "length (snapshots (trace rs) @ [?c]) = length (indexData rs @ [?r])"
      using l by simp
    show "fst ` set ((snapshots (trace rs) @ [?c]) ! k) =
          fst ` set (stored d) \<union> r_fileName ` set (take (Suc k) (indexData rs @ [?r]))"
      if "k < length (indexData rs @ [?r])" for k
      using s' [OF that] by (rule conjunct1)
    show "map_of ((snapshots (trace rs) @ [?c]) ! k) (r_fileName ((indexData rs @ [?r]) ! k)) =
          Some (r_checksum ((indexData rs @ [?r]) ! k))"
      if "k < length (indexData rs @ [?r])" for k
      using s' [OF that] by (rule conjunct2)
    show "Some ?c = (if indexData rs @ [?r] = [] then checksum_file d
            else Some (last (snapshots (trace rs) @ [?c])))"
      by simp
    show "last (snapshots (trace rs) @ [?c]) = ?c" by simp
    show "distinct (map fst ?c)" if "distinct (map fst (stored d))"
      using that dd by (simp add: distinct_update)
  qed
next
  case settled
  with assms(2) show ?thesis by simp
next
  case fetch_fail
  with assms(2) show ?thesis by (simp add: store_inv_def)
next
  case fetch_ok
  with assms(2) show ?thesis by simp
next
  case (write_ok body)
  with assms(2) show ?thesis by (simp add: store_inv_def)
next
  case write_fail
  with assms(2) show ?thesis by (simp add: store_inv_def)
next
  case (write_part part)
  with assms(2) show ?thesis by (simp add: store_inv_def)
next
  case hash_fail
  with assms(2) show ?thesis by (simp add: store_inv_def)
qed

lemma resume_trace_inv:
  assumes "resume env t rs = (t', rs')" and "task_inv env rs t" and "trace_inv (trace rs)"
  shows "trace_inv (trace rs')"
  using assms
  by (cases rule: resume_cases)
     (auto simp: trace_inv_def task_inv_def t_path_def t_name_def filePathOf_def)

lemma sum_list_map_update:
  fixes f :: "'a \<Rightarrow> 'b::comm_monoid_add"
  shows "i < length xs \<Longrightarrow>
    sum_list (map f (xs[i := y])) + f (xs ! i) = sum_list (map f xs) + f y"
proof (induction xs arbitrary: i)
  case Nil
  then show ?case by simp
next
  case (Cons x xs)
  show ?case
  proof (cases i)
    case 0
    then show ?thesis by (simp add: ac_simps)
  next
    case (Suc j)
    with Cons.prems have "j < length xs" by simp
    from Cons.IH [OF this] Suc show ?thesis
      by (simp add: add.assoc)
  qed
qed

lemma pend_settled: "t_pc t = Settled \<Longrightarrow> pend env t = {#}"
  by (simp add: pend_def)

lemma sum_list_pend_settled:
  "\<forall>t\<in>set ts. t_pc t = Settled \<Longrightarrow> sum_list (map (pend env) ts) = {#}"
  by (induction ts) (simp_all add: pend_settled)

lemma promise_all_group:
  assumes run: "promise_all env ks ts rs = (ts', rs')"
    and ti: "\<forall>t\<in>set ts. task_inv env rs t"
    and si: "store_inv d rs"
    and tri: "trace_inv (trace rs)"
  shows "(\<forall>t\<in>set ts'. task_inv env rs' t \<and> t_pc t = Settled) \<and>
         store_inv d rs' \<and> trace_inv (trace rs') \<and> quiet rs rs' \<and>
         mset (map rkey (indexData rs')) =
           mset (map rkey (indexData rs)) + sum_list (map (pend env) ts)"
proof -
  let ?P = "\<lambda>us s. (\<forall>t\<in>set us. task_inv env s t) \<and> store_inv d s \<and>
      trace_inv (trace s) \<and> quiet rs s \<and>
      mset (map rkey (indexData s)) + sum_list (map (pend env) us) =
        mset (map rkey (indexData rs)) + sum_list (map (pend env) ts)"
  have step: "?P (us[i := t']) s'"
    if P: "?P us s" and i: "i < length us" and r: "resume env (us ! i) s = (t', s')"
    for us s i t' s'
  proof -
    from P i have own: "task_inv env s (us ! i)" by simp
    have q: "quiet s s'" using r by (rule resume_quiet)
    have "task_inv env s' x" if "x \<in> set (us[i := t'])" for x
    proof -
      from that set_update_subset_insert [of us i t'] have "x = t' \<or> x \<in> set us" by auto
      then show ?thesis
      proof
        assume "x = t'"
        with resume_task_inv [OF r own] show ?thesis by simp
      next
        assume "x \<in> set us"
        with P have "task_inv env s x" by simp
        then show ?thesis using q by (rule task_inv_quiet)
      qed
    qed
    moreover from P have "store_inv d s'" by (intro resume_store_inv [OF r]) simp
    moreover from P own have "trace_inv (trace s')" by (intro resume_trace_inv [OF r]) simp_all
    moreover from P q have "quiet rs s'" by (blast intro: quiet_trans)
    moreover have "mset (map rkey (indexData s')) + sum_list (map (pend env) (us[i := t'])) =
        mset (map rkey (indexData rs)) + sum_list (map (pend env) ts)"
    proof -
      have a: "mset (map rkey (indexData s')) + pend env t' =
               mset (map rkey (indexData s)) + pend env (us ! i)"
        using r own by (rule resume_pend)
      have b: "sum_list (map (pend env) (us[i := t'])) + pend env (us ! i) =
               sum_list (map (pend env) us) + pend env t'"
        using i by (rule sum_list_map_update)
      have "mset (map rkey (indexData s')) + sum_list (map (pend env) (us[i := t'])) +
              (pend env (us ! i) + pend env t') =
            (mset (map rkey (indexData s')) + pend env t') +
              (sum_list (map (pend env) (us[i := t'])) + pend env (us ! i))"
        by (simp add: ac_simps)
      also have "\<dots> = (mset (map rkey (indexData s)) + pend env (us ! i)) +
              (sum_list (map (pend env) us) + pend env t')"
        by (simp only: a b)
      also have "\<dots> = mset (map rkey (indexData s)) + sum_list (map (pend env) us) +
              (pend env (us ! i) + pend env t')"
        by (simp add: ac_simps)
      finally have "mset (map rkey (indexData s')) + sum_list (map (pend env) (us[i := t'])) =
            mset (map rkey (indexData s)) + sum_list (map (pend env) us)"
        by simp
      with P show ?thesis by simp
    qed
    ultimately show ?thesis by blast
  qed
  have init: "?P ts rs" using ti si tri by (simp add: quiet_refl)
  from run have run': "run_picks env (ks @ rest_picks (length ts)) ts rs = (ts', rs')"
    by (simp add: promise_all_def)
  have fin: "?P ts' rs'"
    by (rule run_picks_invariant [where P = ?P, OF step init run'])
  have settled: "\<forall>t\<in>set ts'. t_pc t = Settled" using run by (rule promise_all_settles)
  with fin sum_list_pend_settled [OF settled, of env] show ?thesis by simp
qed

section \<open>Starting the tasks of a group\<close>

lemma downloadPdf_cases [consumes 1, case_names skip start]:
  assumes "downloadPdf url idx rs = (t, rs')"
  obtains
    "files rs (filePathOf idx url) \<noteq> None" "t = Task idx url Settled"
      "rs' = rs\<lparr>dirs := ensureDir (batchFolderName idx) (dirs rs),
                 trace := trace rs @ [Call idx, LogSkip (basename url), Settle idx]\<rparr>"
  | "files rs (filePathOf idx url) = None" "t = Task idx url AwaitFetch"
      "rs' = rs\<lparr>dirs := ensureDir (batchFolderName idx) (dirs rs),
                 trace := trace rs @ [Call idx, LogDownloading idx (basename url), HttpGet url]\<rparr>"
  using assms
  by (cases "files rs (filePathOf idx url)")
     (auto simp: downloadPdf_def getBatchFolder_def emit_def Let_def filePathOf_def)

lemma start_chunk_ConsE:
  assumes "start_chunk n (url # urls) rs = (ts, rs')"
  obtains t rs1 ts1 where "downloadPdf url (Suc n) rs = (t, rs1)"
    "start_chunk (Suc n) urls rs1 = (ts1, rs')" "ts = t # ts1"
  using assms by (auto simp: Let_def split: prod.splits)

lemma start_chunk_tasks:
  "start_chunk n urls rs = (ts, rs') \<Longrightarrow>
   map (\<lambda>t. (t_idx t, t_url t)) ts = enumerate (Suc n) urls \<and>
   (\<forall>t\<in>set ts. t_pc t = AwaitFetch \<or> t_pc t = Settled)"
proof (induction urls arbitrary: n rs ts)
  case Nil
  then show ?case by simp
next
  case (Cons url urls)
  from Cons.prems obtain t rs1 ts1 where d: "downloadPdf url (Suc n) rs = (t, rs1)"
    and s: "start_chunk (Suc n) urls rs1 = (ts1, rs')" and ts: "ts = t # ts1"
    by (rule start_chunk_ConsE)
  from d have "t_idx t = Suc n \<and> t_url t = url \<and> (t_pc t = AwaitFetch \<or> t_pc t = Settled)"
    by (cases rule: downloadPdf_cases) simp_all
  with Cons.IH [OF s] ts show ?case by simp
qed

lemma start_chunk_frame:
  "start_chunk n urls rs = (ts, rs') \<Longrightarrow>
   files rs' = files rs \<and> checksums rs' = checksums rs \<and> indexData rs' = indexData rs \<and>
   checksum_file rs' = checksum_file rs \<and> index_file rs' = index_file rs \<and>
   snapshots (trace rs') = snapshots (trace rs) \<and>
   (\<exists>evs. trace rs' = trace rs @ evs) \<and>
   calls (trace rs') = calls (trace rs) @ [Suc n..<Suc n + length urls]"
proof (induction urls arbitrary: n rs ts)
  case Nil
  then show ?case by simp
next
  case (Cons url urls)
  from Cons.prems obtain t rs1 ts1 where d: "downloadPdf url (Suc n) rs = (t, rs1)"
    and s: "start_chunk (Suc n) urls rs1 = (ts1, rs')" and ts: "ts = t # ts1"
    by (rule start_chunk_ConsE)
  from d have "files rs1 = files rs \<and> checksums rs1 = checksums rs \<and>
      indexData rs1 = indexData rs \<and> checksum_file rs1 = checksum_file rs \<and>
      index_file rs1 = index_file rs \<and> snapshots (trace rs1) = snapshots (trace rs) \<and>
      (\<exists>evs. trace rs1 = trace rs @ evs) \<and> calls (trace rs1) = calls (trace rs) @ [Suc n]"
    by (cases rule: downloadPdf_cases) simp_all
  moreover have "[Suc n..<Suc n + length (url # urls)] =
      Suc n # [Suc (Suc n)..<Suc (Suc n) + length urls]"
    by (subst upt_rec) simp
  moreover note Cons.IH [OF s]
  ultimately show ?case
    by (elim conjE exE) simp
qed

lemma start_chunk_files: "start_chunk n urls rs = (ts, rs') \<Longrightarrow> files rs' = files rs"
  by (simp add: start_chunk_frame)

lemma start_chunk_downloads:
  "start_chunk n urls rs = (ts, rs') \<Longrightarrow>
   (\<forall>i f. LogDownloading i f \<in> set (trace rs') \<longleftrightarrow>
      LogDownloading i f \<in> set (trace rs) \<or>
      (\<exists>t\<in>set ts. t_pc t = AwaitFetch \<and> t_idx t = i \<and> t_name t = f)) \<and>
   (\<forall>t\<in>set ts. (t_pc t = AwaitFetch \<longrightarrow> files rs (t_path t) = None) \<and>
      (t_pc t = Settled \<longrightarrow> Settle (t_idx t) \<in> set (trace rs')))"
proof (induction urls arbitrary: n rs ts)
  case Nil
  then show ?case by simp
next
  case (Cons url urls)
  from Cons.prems obtain t rs1 ts1 where d: "downloadPdf url (Suc n) rs = (t, rs1)"
    and s: "start_chunk (Suc n) urls rs1 = (ts1, rs')" and ts: "ts = t # ts1"
    by (rule start_chunk_ConsE)
  from start_chunk_frame [OF s] obtain evs where evs: "trace rs' = trace rs1 @ evs"
    by blast
  from d have one:
    "(\<forall>i f. LogDownloading i f \<in> set (trace rs1) \<longleftrightarrow>
        LogDownloading i f \<in> set (trace rs) \<or>
        (t_pc t = AwaitFetch \<and> t_idx t = i \<and> t_name t = f)) \<and>
     (t_pc t = AwaitFetch \<longrightarrow> files rs (t_path t) = None) \<and>
     (t_pc t = Settled \<longrightarrow> Settle (t_idx t) \<in> set (trace rs1)) \<and> files rs1 = files rs"
    by (cases rule: downloadPdf_cases) (auto simp: t_name_def t_path_def)
  from Cons.IH [OF s] have ih:
    "\<And>i f. LogDownloading i f \<in> set (trace rs') \<longleftrightarrow>
        LogDownloading i f \<in> set (trace rs1) \<or>
        (\<exists>t\<in>set ts1. t_pc t = AwaitFetch \<and> t_idx t = i \<and> t_name t = f)"
    and ih2: "\<And>t. t \<in> set ts1 \<Longrightarrow> (t_pc t = AwaitFetch \<longrightarrow> files rs1 (t_path t) = None) \<and>
      (t_pc t = Settled \<longrightarrow> Settle (t_idx t) \<in> set (trace rs'))"
    by blast+
  show ?case
  proof (intro conjI allI)
    fix i f
    from ih [of i f] one ts
    show "LogDownloading i f \<in> set (trace rs') \<longleftrightarrow>
      LogDownloading i f \<in> set (trace rs) \<or>
      (\<exists>t\<in>set ts. t_pc t = AwaitFetch \<and> t_idx t = i \<and> t_name t = f)"
      by auto
  next
    show "\<forall>t\<in>set ts. (t_pc t = AwaitFetch \<longrightarrow> files rs (t_path t) = None) \<and>
      (t_pc t = Settled \<longrightarrow> Settle (t_idx t) \<in> set (trace rs'))"
    proof
      fix x assume "x \<in> set ts"
      with ts have "x = t \<or> x \<in> set ts1" by simp
      then show "(t_pc x = AwaitFetch \<longrightarrow> files rs (t_path x) = None) \<and>
        (t_pc x = Settled \<longrightarrow> Settle (t_idx x) \<in> set (trace rs'))"
      proof
        assume "x = t"
        with one evs show ?thesis by simp
      next
        assume "x \<in> set ts1"
        from ih2 [OF this] one show ?thesis by simp
      qed
    qed
  qed
qed

lemma start_chunk_store_inv:
  "start_chunk n urls rs = (ts, rs') \<Longrightarrow> store_inv d rs \<Longrightarrow> store_inv d rs'"
  by (drule start_chunk_frame) (simp add: store_inv_def)

lemma start_chunk_trace_inv:
  "start_chunk n urls rs = (ts, rs') \<Longrightarrow> trace_inv (trace rs) \<Longrightarrow> trace_inv (trace rs')"
proof (induction urls arbitrary: n rs ts)
  case Nil
  then show ?case by simp
next
  case (Cons url urls)
  from Cons.prems(1) obtain t rs1 ts1 where d: "downloadPdf url (Suc n) rs = (t, rs1)"
    and s: "start_chunk (Suc n) urls rs1 = (ts1, rs')" and ts: "ts = t # ts1"
    by (rule start_chunk_ConsE)
  from d Cons.prems(2) have "trace_inv (trace rs1)"
    by (cases rule: downloadPdf_cases) (simp_all add: trace_inv_def, blast+)
  with s show ?case by (rule Cons.IH)
qed

lemma start_chunk_idx:
  assumes "start_chunk n urls rs = (ts, rs')"
  shows "map t_idx ts = [Suc n..<Suc n + length urls]"
proof -
  from start_chunk_tasks [OF assms]
  have "map fst (map (\<lambda>t. (t_idx t, t_url t)) ts) = map fst (enumerate (Suc n) urls)"
    by simp
  then show ?thesis by (simp add: comp_def)
qed

lemma start_chunk_task_inv:
  assumes s: "start_chunk n urls rs = (ts, rs')"
    and fresh: "\<forall>i f. LogDownloading i f \<in> set (trace rs) \<longrightarrow> i \<le> n"
  shows "\<forall>t\<in>set ts. task_inv env rs' t"
proof
  fix t assume t: "t \<in> set ts"
  from start_chunk_idx [OF s] have idx: "map t_idx ts = [Suc n..<Suc n + length urls]" .
  then have "distinct (map t_idx ts)" by simp
  then have inj: "inj_on t_idx (set ts)" by (simp add: distinct_map)
  from idx t have gt: "n < t_idx t"
    by (metis (no_types) atLeastLessThan_iff image_eqI less_eq_Suc_le list.set_map set_upt)
  from start_chunk_tasks [OF s] t have pc: "t_pc t = AwaitFetch \<or> t_pc t = Settled" by blast
  from start_chunk_downloads [OF s] have
    dl: "\<And>i f. LogDownloading i f \<in> set (trace rs') \<longleftrightarrow>
      LogDownloading i f \<in> set (trace rs) \<or>
      (\<exists>t\<in>set ts. t_pc t = AwaitFetch \<and> t_idx t = i \<and> t_name t = f)"
    and st: "\<And>t. t \<in> set ts \<Longrightarrow> t_pc t = Settled \<Longrightarrow> Settle (t_idx t) \<in> set (trace rs')"
    by blast+
  from pc show "task_inv env rs' t"
  proof
    assume a: "t_pc t = AwaitFetch"
    with t dl [of "t_idx t" "t_name t"] show ?thesis
      by (auto simp: task_inv_def)
  next
    assume a: "t_pc t = Settled"
    have "LogDownloading (t_idx t) (t_name t) \<notin> set (trace rs')"
    proof
      assume "LogDownloading (t_idx t) (t_name t) \<in> set (trace rs')"
      with dl [of "t_idx t" "t_name t"] fresh gt
      obtain t' where "t' \<in> set ts" "t_pc t' = AwaitFetch" "t_idx t' = t_idx t"
        by fastforce
      with inj t have "t' = t" by (auto dest: inj_onD)
      with \<open>t_pc t' = AwaitFetch\<close> a show False by simp
    qed
    with a st [OF t a] show ?thesis by (simp add: task_inv_def)
  qed
qed

lemma sum_list_singletons:
  "sum_list (map (\<lambda>x. if P x then {#f x#} else {#}) xs) = mset (map f (filter P xs))"
  by (induction xs) simp_all

lemma start_chunk_pend:
  assumes s: "start_chunk n urls rs = (ts, rs')"
    and fresh: "\<forall>i f. LogDownloading i f \<in> set (trace rs) \<longrightarrow> i \<le> n"
  shows "sum_list (map (pend env) ts) =
         mset (map ukey (filter (newly env (trace rs')) (enumerate (Suc n) urls)))"
proof -
  let ?g = "\<lambda>t. (t_idx t, t_url t)"
  from start_chunk_idx [OF s] have idx: "map t_idx ts = [Suc n..<Suc n + length urls]" .
  then have "distinct (map t_idx ts)" by simp
  then have inj: "inj_on t_idx (set ts)" by (simp add: distinct_map)
  from start_chunk_downloads [OF s] have
    dl: "\<And>i f. LogDownloading i f \<in> set (trace rs') \<longleftrightarrow>
      LogDownloading i f \<in> set (trace rs) \<or>
      (\<exists>t\<in>set ts. t_pc t = AwaitFetch \<and> t_idx t = i \<and> t_name t = f)"
    by blast
  have eq: "(t_pc t \<noteq> Settled \<and> succeeds env (t_idx t) (t_url t)) \<longleftrightarrow>
            newly env (trace rs') (?g t)" if t: "t \<in> set ts" for t
  proof -
    from idx t have gt: "n < t_idx t"
      by (metis (no_types) atLeastLessThan_iff image_eqI less_eq_Suc_le list.set_map set_upt)
    from start_chunk_tasks [OF s] t have pc: "t_pc t = AwaitFetch \<or> t_pc t = Settled" by blast
    have "LogDownloading (t_idx t) (t_name t) \<in> set (trace rs') \<longleftrightarrow> t_pc t = AwaitFetch"
    proof
      assume "LogDownloading (t_idx t) (t_name t) \<in> set (trace rs')"
      with dl [of "t_idx t" "t_name t"] fresh gt
      obtain t' where "t' \<in> set ts" "t_pc t' = AwaitFetch" "t_idx t' = t_idx t"
        by fastforce
      with inj t have "t' = t" by (auto dest: inj_onD)
      with \<open>t_pc t' = AwaitFetch\<close> show "t_pc t = AwaitFetch" by simp
    next
      assume "t_pc t = AwaitFetch"
      with t dl [of "t_idx t" "t_name t"]
      show "LogDownloading (t_idx t) (t_name t) \<in> set (trace rs')" by blast
    qed
    with pc show ?thesis by (auto simp: newly_def t_name_def)
  qed
  have "sum_list (map (pend env) ts) =
        mset (map (\<lambda>t. (t_name t, t_url t))
          (filter (\<lambda>t. t_pc t \<noteq> Settled \<and> succeeds env (t_idx t) (t_url t)) ts))"
    unfolding pend_def by (rule sum_list_singletons)
  also have "\<dots> = mset (map (ukey \<circ> ?g) (filter (newly env (trace rs') \<circ> ?g) ts))"
  proof -
    have "filter (\<lambda>t. t_pc t \<noteq> Settled \<and> succeeds env (t_idx t) (t_url t)) ts =
          filter (newly env (trace rs') \<circ> ?g) ts"
      by (rule filter_cong) (simp_all add: eq)
    moreover have "(\<lambda>t. (t_name t, t_url t)) = ukey \<circ> ?g"
      by (simp add: fun_eq_iff ukey_def t_name_def)
    ultimately show ?thesis by simp
  qed
  also have "\<dots> = mset (map ukey (filter (newly env (trace rs')) (map ?g ts)))"
    by (simp add: filter_map)
  also have "map ?g ts = enumerate (Suc n) urls"
    using start_chunk_tasks [OF s] by simp
  finally show ?thesis .
qed

section \<open>One group\<close>

lemma length_calls_take: "length (calls (take k evs)) \<le> length (calls evs)"
proof -
  have "calls evs = calls (take k evs) @ calls (drop k evs)"
    by (simp flip: calls_append)
  then show ?thesis by simp
qed

lemma bounded_flight_append:
  assumes b: "bounded_flight tr"
    and s: "\<forall>i\<in>set (calls tr). Settle i \<in> set tr"
    and l: "length (calls evs) \<le> CHUNK_SIZE"
  shows "bounded_flight (tr @ evs)"
  unfolding bounded_flight_def
proof
  fix k
  show "length (in_flight (take k (tr @ evs))) \<le> CHUNK_SIZE"
  proof (cases "k \<le> length tr")
    case True
    with b show ?thesis by (simp add: bounded_flight_def)
  next
    case False
    let ?p = "take (k - length tr) evs"
    from False have tk: "take k (tr @ evs) = tr @ ?p" by simp
    have "filter (\<lambda>i. Settle i \<notin> set (tr @ ?p)) (calls tr) = []"
      using s by (auto simp: filter_empty_conv)
    then have "in_flight (tr @ ?p) = filter (\<lambda>i. Settle i \<notin> set (tr @ ?p)) (calls ?p)"
      by (simp add: in_flight_def)
    then have "length (in_flight (tr @ ?p)) \<le> length (calls ?p)" by simp
    also have "\<dots> \<le> length (calls evs)" by (rule length_calls_take)
    finally show ?thesis using l tk by simp
  qed
qed

lemma barrier_append:
  assumes b: "barrier tr"
    and s: "\<forall>j\<in>set (calls evs). \<forall>i. 1 \<le> i \<and> (i - 1) div CHUNK_SIZE < (j - 1) div CHUNK_SIZE
              \<longrightarrow> Settle i \<in> set tr"
  shows "barrier (tr @ evs)"
  unfolding barrier_def
proof (intro allI impI)
  fix k j i
  assume a: "k < length (tr @ evs) \<and> (tr @ evs) ! k = Call j \<and> 1 \<le> i \<and>
        (i - 1) div CHUNK_SIZE < (j - 1) div CHUNK_SIZE"
  show "Settle i \<in> set (take k (tr @ evs))"
  proof (cases "k < length tr")
    case True
    with a have "k < length tr \<and> tr ! k = Call j \<and> 1 \<le> i \<and>
        (i - 1) div CHUNK_SIZE < (j - 1) div CHUNK_SIZE"
      by (simp add: nth_append)
    with b have "Settle i \<in> set (take k tr)" unfolding barrier_def by blast
    with True show ?thesis by simp
  next
    case False
    with a have "evs ! (k - length tr) = Call j" "k - length tr < length evs"
      by (auto simp: nth_append)
    then have "Call j \<in> set evs" by (metis nth_mem)
    then have "j \<in> set (calls evs)" by (simp add: in_calls_iff)
    with s a have "Settle i \<in> set tr" by blast
    with False show ?thesis by simp
  qed
qed

lemma promise_all_same_calls:
  assumes "promise_all env ks ts rs = (ts', rs')"
  shows "map (\<lambda>t. (t_idx t, t_url t)) ts' = map (\<lambda>t. (t_idx t, t_url t)) ts"
proof -
  from assms have "run_picks env (ks @ rest_picks (length ts)) ts rs = (ts', rs')"
    by (simp add: promise_all_def)
  from run_picks_same_calls [OF this] show ?thesis
    by (intro nth_equalityI) simp_all
qed

lemma newly_cong:
  assumes "\<And>f. LogDownloading (fst p) f \<in> set tr \<longleftrightarrow> LogDownloading (fst p) f \<in> set tr'"
  shows "newly env tr p = newly env tr' p"
  using assms by (simp add: newly_def)

lemma group_run:
  assumes s: "start_chunk m chunk rs = (ts, rs1)"
    and p: "promise_all env ks ts rs1 = (ts2, rs2)"
    and fresh: "\<forall>i f. LogDownloading i f \<in> set (trace rs) \<longrightarrow> i \<le> m"
    and si: "store_inv d rs" and tri: "trace_inv (trace rs)"
  shows "store_inv d rs2 \<and> trace_inv (trace rs2) \<and>
    (\<forall>p. files rs p \<noteq> None \<longrightarrow> files rs2 p \<noteq> None) \<and>
    (\<exists>evs. trace rs2 = trace rs @ evs \<and> calls evs = [Suc m..<Suc m + length chunk]) \<and>
    mset (map rkey (indexData rs2)) =
      mset (map rkey (indexData rs)) +
      mset (map ukey (filter (newly env (trace rs2)) (enumerate (Suc m) chunk))) \<and>
    (\<forall>i f. LogDownloading i f \<in> set (trace rs2) \<longrightarrow>
       LogDownloading i f \<in> set (trace rs) \<or>
       (\<exists>u. (i, u) \<in> set (enumerate (Suc m) chunk) \<and> f = basename u \<and>
            files rs (filePathOf i u) = None)) \<and>
    (\<forall>p\<in>set (enumerate (Suc m) chunk). Settle (fst p) \<in> set (trace rs2) \<and> done_inv env rs2 p)"
proof -
  let ?g = "\<lambda>t. (t_idx t, t_url t)"
  note fr = start_chunk_frame [OF s]
  have ti: "\<forall>t\<in>set ts. task_inv env rs1 t" using s fresh by (rule start_chunk_task_inv)
  have si1: "store_inv d rs1" using s si by (rule start_chunk_store_inv)
  have tri1: "trace_inv (trace rs1)" using s tri by (rule start_chunk_trace_inv)
  from promise_all_group [OF p ti si1 tri1]
  have fin: "\<forall>t\<in>set ts2. task_inv env rs2 t \<and> t_pc t = Settled"
    and si2: "store_inv d rs2" and tri2: "trace_inv (trace rs2)" and q: "quiet rs1 rs2"
    and ms: "mset (map rkey (indexData rs2)) =
           mset (map rkey (indexData rs1)) + sum_list (map (pend env) ts)"
    by blast+
  from fr obtain evs1 where e1: "trace rs1 = trace rs @ evs1" by blast
  from q obtain evs2 where e2: "trace rs2 = trace rs1 @ evs2"
    and c2: "calls (trace rs2) = calls (trace rs1)"
    and d2: "\<And>i f. LogDownloading i f \<in> set (trace rs2) \<Longrightarrow> LogDownloading i f \<in> set (trace rs1)"
    and f2: "\<And>p. files rs1 p \<noteq> None \<Longrightarrow> files rs2 p \<noteq> None"
    unfolding quiet_def by blast
  have files: "\<forall>p. files rs p \<noteq> None \<longrightarrow> files rs2 p \<noteq> None"
    using fr f2 by simp
  have tr: "\<exists>evs. trace rs2 = trace rs @ evs \<and> calls evs = [Suc m..<Suc m + length chunk]"
  proof (intro exI conjI)
    show "trace rs2 = trace rs @ (evs1 @ evs2)" using e1 e2 by simp
    from fr c2 e1 e2 show "calls (evs1 @ evs2) = [Suc m..<Suc m + length chunk]"
      by simp
  qed
  have same: "newly env (trace rs2) = newly env (trace rs1)"
  proof
    fix x show "newly env (trace rs2) x = newly env (trace rs1) x"
      using d2 e2 by (intro newly_cong) auto
  qed
  have ms': "mset (map rkey (indexData rs2)) =
      mset (map rkey (indexData rs)) +
      mset (map ukey (filter (newly env (trace rs2)) (enumerate (Suc m) chunk)))"
    using ms fr start_chunk_pend [OF s fresh, of env] same by simp
  have tasks: "map ?g ts = enumerate (Suc m) chunk" using start_chunk_tasks [OF s] by simp
  have tasks2: "map ?g ts2 = enumerate (Suc m) chunk"
    using promise_all_same_calls [OF p] tasks by simp
  have dl: "LogDownloading i f \<in> set (trace rs) \<or>
       (\<exists>u. (i, u) \<in> set (enumerate (Suc m) chunk) \<and> f = basename u \<and>
            files rs (filePathOf i u) = None)"
    if "LogDownloading i f \<in> set (trace rs2)" for i f
  proof -
    from that have "LogDownloading i f \<in> set (trace rs1)" by (rule d2)
    with start_chunk_downloads [OF s]
    have "LogDownloading i f \<in> set (trace rs) \<or>
      (\<exists>t\<in>set ts. t_pc t = AwaitFetch \<and> t_idx t = i \<and> t_name t = f \<and>
         files rs (t_path t) = None)"
      by blast
    then show ?thesis
    proof
      assume "LogDownloading i f \<in> set (trace rs)"
      then show ?thesis ..
    next
      assume "\<exists>t\<in>set ts. t_pc t = AwaitFetch \<and> t_idx t = i \<and> t_name t = f \<and>
         files rs (t_path t) = None"
      then obtain t where t: "t \<in> set ts" "t_idx t = i" "t_name t = f"
        "files rs (t_path t) = None" by blast
      from t(1) have "?g t \<in> set (map ?g ts)" by simp
      with tasks t have "(i, t_url t) \<in> set (enumerate (Suc m) chunk)" by simp
      with t show ?thesis by (auto simp: t_name_def t_path_def)
    qed
  qed
  have dn: "Settle (fst x) \<in> set (trace rs2) \<and> done_inv env rs2 x"
    if x: "x \<in> set (enumerate (Suc m) chunk)" for x
  proof -
    from x tasks2 have "x \<in> set (map ?g ts2)" by simp
    then obtain t where t: "t \<in> set ts2" "x = ?g t" by auto
    with fin have "task_inv env rs2 t" "t_pc t = Settled" by blast+
    with t(2) show ?thesis
      by (simp add: task_inv_def done_inv_def t_name_def t_path_def)
  qed
  from si2 tri2 files tr ms' dl dn show ?thesis by blast
qed

section \<open>The loop over the groups\<close>

lemma enumerate_take_add:
  "m \<le> length xs \<Longrightarrow>
   enumerate 1 (take (m + k) xs) = enumerate 1 (take m xs) @ enumerate (Suc m) (take k (drop m xs))"
  by (simp add: take_add enumerate_append_eq)

lemma in_enumerate_bounds:
  "(i, u) \<in> set (enumerate n xs) \<Longrightarrow> n \<le> i \<and> i < n + length xs"
  by (simp add: in_set_enumerate_eq)

lemma barrier_arith:
  fixes m i j c :: nat
  assumes "m mod c = 0" "m < j" "j \<le> m + c" "(i - 1) div c < (j - 1) div c" "0 < c"
  shows "i \<le> m"
proof (rule ccontr)
  assume "\<not> i \<le> m"
  then have "m \<le> i - 1" by simp
  then have "m div c \<le> (i - 1) div c" by (rule div_le_mono)
  moreover from assms have "(j - 1) div c \<le> m div c"
  proof -
    from assms(1) obtain q where q: "m = c * q" by (auto simp: mod_eq_0_iff_dvd)
    from assms(2,3) have "j - 1 < c * q + c" using q by simp
    then have "j - 1 < c * Suc q" by simp
    then have "(j - 1) div c < Suc q" using assms(5)
      by (simp add: less_mult_imp_div_less mult.commute)
    with q assms(5) show ?thesis by simp
  qed
  ultimately show False using assms(4) by simp
qed

lemma loop_inv_step:
  assumes inv: "loop_inv env d links m rs"
    and m: "m < length links" and mm: "m mod CHUNK_SIZE = 0"
    and s: "start_chunk m (take CHUNK_SIZE (drop m links)) rs = (ts, rs1)"
    and p: "promise_all env ks ts rs1 = (ts2, rs2)"
  shows "loop_inv env d links (m + CHUNK_SIZE) rs2"
proof -
  let ?chunk = "take CHUNK_SIZE (drop m links)"
  let ?old = "enumerate 1 (take m links)"
  let ?new = "enumerate (Suc m) ?chunk"
  from inv have si: "store_inv d rs" and tri: "trace_inv (trace rs)"
    and fl: "\<And>p. files d p \<noteq> None \<Longrightarrow> files rs p \<noteq> None"
    and ms: "mset (map rkey (indexData rs)) =
       mset (map ukey (filter (newly env (trace rs)) ?old))"
    and dl: "\<And>i f. LogDownloading i f \<in> set (trace rs) \<Longrightarrow>
        \<exists>u. (i, u) \<in> set ?old \<and> f = basename u \<and> files d (filePathOf i u) = None"
    and dn: "\<And>x. x \<in> set ?old \<Longrightarrow> done_inv env rs x"
    and cl: "calls (trace rs) = [1..<Suc (min m (length links))]"
    and st: "\<And>i. i \<in> set (calls (trace rs)) \<Longrightarrow> Settle i \<in> set (trace rs)"
    and bf: "bounded_flight (trace rs)" and ba: "barrier (trace rs)"
    unfolding loop_inv_def by blast+
  have split: "enumerate 1 (take (m + CHUNK_SIZE) links) = ?old @ ?new"
    using m enumerate_take_add [of m links CHUNK_SIZE] by simp
  have old_le: "i \<le> m" if "(i, u) \<in> set ?old" for i u
    using in_enumerate_bounds [OF that] m by simp
  have new_gt: "m < i" if "(i, u) \<in> set ?new" for i u
    using in_enumerate_bounds [OF that] by simp
  have fresh: "\<forall>i f. LogDownloading i f \<in> set (trace rs) \<longrightarrow> i \<le> m"
    using dl old_le by blast
  from group_run [OF s p fresh si tri]
  have si2: "store_inv d rs2" and tri2: "trace_inv (trace rs2)"
    and fl2: "\<And>p. files rs p \<noteq> None \<Longrightarrow> files rs2 p \<noteq> None"
    and tr2: "\<exists>evs. trace rs2 = trace rs @ evs \<and> calls evs = [Suc m..<Suc m + length ?chunk]"
    and ms2: "mset (map rkey (indexData rs2)) =
      mset (map rkey (indexData rs)) + mset (map ukey (filter (newly env (trace rs2)) ?new))"
    and dl2: "\<And>i f. LogDownloading i f \<in> set (trace rs2) \<Longrightarrow>
       LogDownloading i f \<in> set (trace rs) \<or>
       (\<exists>u. (i, u) \<in> set ?new \<and> f = basename u \<and> files rs (filePathOf i u) = None)"
    and dn2: "\<And>x. x \<in> set ?new \<Longrightarrow> Settle (fst x) \<in> set (trace rs2) \<and> done_inv env rs2 x"
    by blast+
  from tr2 obtain evs where evs: "trace rs2 = trace rs @ evs"
    and cevs: "calls evs = [Suc m..<Suc m + length ?chunk]" by blast
  have sub: "e \<in> set (trace rs2)" if "e \<in> set (trace rs)" for e using that evs by simp
  have old_dl: "LogDownloading i f \<in> set (trace rs2) \<longleftrightarrow> LogDownloading i f \<in> set (trace rs)"
    if "i \<le> m" for i f
  proof
    assume "LogDownloading i f \<in> set (trace rs2)"
    from dl2 [OF this] that new_gt show "LogDownloading i f \<in> set (trace rs)"
      by (auto dest: new_gt)
  qed (rule sub)
  have c1: "\<forall>p. files d p \<noteq> None \<longrightarrow> files rs2 p \<noteq> None" using fl fl2 by blast
  have old_newly: "filter (newly env (trace rs2)) ?old = filter (newly env (trace rs)) ?old"
  proof (rule filter_cong [OF refl])
    fix x assume "x \<in> set ?old"
    then have "fst x \<le> m" using old_le [of "fst x" "snd x"] by simp
    then show "newly env (trace rs2) x = newly env (trace rs) x"
      by (intro newly_cong old_dl)
  qed
  have c2: "mset (map rkey (indexData rs2)) =
       mset (map ukey (filter (newly env (trace rs2)) (enumerate 1 (take (m + CHUNK_SIZE) links))))"
    unfolding split using ms2 ms old_newly by simp
  have c3: "\<exists>u. (i, u) \<in> set (enumerate 1 (take (m + CHUNK_SIZE) links)) \<and> f = basename u \<and>
             files d (filePathOf i u) = None"
    if "LogDownloading i f \<in> set (trace rs2)" for i f
  proof -
    from dl2 [OF that] show ?thesis
    proof
      assume "LogDownloading i f \<in> set (trace rs)"
      from dl [OF this] show ?thesis unfolding split by auto
    next
      assume "\<exists>u. (i, u) \<in> set ?new \<and> f = basename u \<and> files rs (filePathOf i u) = None"
      then obtain u where u: "(i, u) \<in> set ?new" "f = basename u"
        "files rs (filePathOf i u) = None" by blast
      from u(3) fl [of "filePathOf i u"] have "files d (filePathOf i u) = None" by blast
      with u show ?thesis unfolding split by auto
    qed
  qed
  have c4: "done_inv env rs2 x" if "x \<in> set (enumerate 1 (take (m + CHUNK_SIZE) links))" for x
  proof -
    from that have "x \<in> set ?old \<or> x \<in> set ?new" unfolding split by simp
    then show ?thesis
    proof
      assume x: "x \<in> set ?old"
      then have le: "fst x \<le> m" using old_le [of "fst x" "snd x"] by simp
      from dn [OF x] old_dl [OF le] sub fl2 show ?thesis
        unfolding done_inv_def by blast
    next
      assume "x \<in> set ?new"
      with dn2 show ?thesis by blast
    qed
  qed
  have len: "Suc m + length ?chunk = Suc (min (m + CHUNK_SIZE) (length links))"
    using m by (auto simp: min_def)
  have mn: "min m (length links) = m" using m by simp
  have c5: "calls (trace rs2) = [1..<Suc (min (m + CHUNK_SIZE) (length links))]"
  proof -
    have "calls (trace rs2) = [1..<Suc m] @ [Suc m..<Suc m + length ?chunk]"
      using evs cevs cl mn by simp
    also have "\<dots> = [1..<Suc m + length ?chunk]"
      by (rule upt_add_eq_append [symmetric]) simp
    finally show ?thesis using len by simp
  qed
  have c6: "Settle i \<in> set (trace rs2)" if "i \<in> set (calls (trace rs2))" for i
  proof -
    from that evs cevs have "i \<in> set (calls (trace rs)) \<or> (Suc m \<le> i \<and> i < Suc m + length ?chunk)"
      by auto
    then show ?thesis
    proof
      assume "i \<in> set (calls (trace rs))"
      then show ?thesis by (intro sub st)
    next
      assume "Suc m \<le> i \<and> i < Suc m + length ?chunk"
      then have "(i, ?chunk ! (i - Suc m)) \<in> set ?new"
        by (simp add: in_set_enumerate_eq)
      from dn2 [OF this] show ?thesis by simp
    qed
  qed
  have c7: "bounded_flight (trace rs2)"
    unfolding evs using bf
  proof (rule bounded_flight_append)
    show "\<forall>i\<in>set (calls (trace rs)). Settle i \<in> set (trace rs)" using st by blast
    have "length (calls evs) = length ?chunk"
      by (simp only: cevs length_upt diff_add_inverse)
    then show "length (calls evs) \<le> CHUNK_SIZE" by simp
  qed
  have c8: "barrier (trace rs2)"
    unfolding evs using ba
  proof (rule barrier_append)
    show "\<forall>j\<in>set (calls evs). \<forall>i. 1 \<le> i \<and> (i - 1) div CHUNK_SIZE < (j - 1) div CHUNK_SIZE
              \<longrightarrow> Settle i \<in> set (trace rs)"
    proof (intro ballI allI impI)
      fix j i
      assume j: "j \<in> set (calls evs)"
        and i: "1 \<le> i \<and> (i - 1) div CHUNK_SIZE < (j - 1) div CHUNK_SIZE"
      from j cevs have "m < j" "j \<le> m + CHUNK_SIZE" by auto
      with mm i have "i \<le> m"
        by (intro barrier_arith [of m CHUNK_SIZE j i]) (simp_all add: CHUNK_SIZE_def)
      with i cl mn have "i \<in> set (calls (trace rs))" by auto
      then show "Settle i \<in> set (trace rs)" by (rule st)
    qed
  qed
  from si2 tri2 c1 c2 c3 c4 c5 c6 c7 c8 show ?thesis
    unfolding loop_inv_def by blast
qed

lemma loop_inv_past_end:
  "loop_inv env d links m rs \<Longrightarrow> length links \<le> m \<Longrightarrow> loop_inv env d links (length links) rs"
  by (simp add: loop_inv_def min_def)

lemma download_loop_inv:
  "loop_inv env d links i rs \<Longrightarrow> i mod CHUNK_SIZE = 0 \<Longrightarrow>
   loop_inv env d links (length links) (download_loop env links i rs)"
proof (induction env links i rs rule: download_loop.induct)
  case (1 env pdfLinks i rs)
  show ?case
  proof (cases "i < length pdfLinks")
    case False
    with "1.prems"(1) show ?thesis
      by (subst download_loop.simps) (simp add: loop_inv_past_end)
  next
    case True
    obtain ts rs1 where s: "start_chunk i (take CHUNK_SIZE (drop i pdfLinks)) rs = (ts, rs1)"
      by (cases "start_chunk i (take CHUNK_SIZE (drop i pdfLinks)) rs")
    obtain ts2 rs2 where p: "promise_all env (picks env i) ts rs1 = (ts2, rs2)"
      by (cases "promise_all env (picks env i) ts rs1")
    have inv2: "loop_inv env d pdfLinks (i + CHUNK_SIZE) rs2"
      using "1.prems"(1) True "1.prems"(2) s p by (rule loop_inv_step)
    have "loop_inv env d pdfLinks (length pdfLinks) (download_loop env pdfLinks (i + CHUNK_SIZE) rs2)"
      using True s [symmetric] p [symmetric] inv2 "1.prems"(2)
      by (intro "1.IH") simp_all
    with True s p show ?thesis
      by (subst download_loop.simps) simp
  qed
qed

section \<open>A whole run\<close>

lemma getPdfLinks_events:
  "snd (getPdfLinks env) = [LogFetchingPage, LogPageError] \<or>
   (\<exists>n. snd (getPdfLinks env) = [LogFetchingPage, LogFound n])"
  by (simp add: getPdfLinks_def Let_def split: option.splits)

lemma bounded_flight_no_calls: "calls tr = [] \<Longrightarrow> bounded_flight tr"
proof -
  assume a: "calls tr = []"
  have "calls (take k tr) = []" for k
    using length_calls_take [of k tr] a by simp
  then show ?thesis by (simp add: bounded_flight_def in_flight_def)
qed

lemma barrier_no_calls: "calls tr = [] \<Longrightarrow> barrier tr"
proof -
  assume a: "calls tr = []"
  have "tr ! k \<noteq> Call j" if "k < length tr" for k j
  proof
    assume "tr ! k = Call j"
    with that have "Call j \<in> set tr" by (metis nth_mem)
    with a show False by (simp flip: in_calls_iff)
  qed
  then show ?thesis by (auto simp: barrier_def)
qed

lemma loop_inv_begin:
  "loop_inv env d links 0 (begin_run d (snd (getPdfLinks env)))"
proof -
  let ?evs = "snd (getPdfLinks env)"
  from getPdfLinks_events [of env]
  have c: "calls ?evs = []" and s: "snapshots ?evs = []"
    and m: "\<And>e. e \<in> set ?evs \<Longrightarrow> e = LogFetchingPage \<or> e = LogPageError \<or> (\<exists>n. e = LogFound n)"
    by auto
  have "store_inv d (begin_run d ?evs)"
    by (simp add: store_inv_def begin_run_def s stored_def)
  moreover have "trace_inv (trace (begin_run d ?evs))"
    using m by (auto simp: trace_inv_def begin_run_def)
  moreover have "\<forall>i f. LogDownloading i f \<notin> set ?evs" using m by auto
  moreover have "bounded_flight ?evs" using c by (rule bounded_flight_no_calls)
  moreover have "barrier ?evs" using c by (rule barrier_no_calls)
  ultimately show ?thesis
    by (simp add: loop_inv_def begin_run_def c)
qed

lemma download_loop_run_inv:
  "loop_inv env d (discovered env) (length (discovered env))
     (download_loop env (discovered env) 0 (begin_run d (snd (getPdfLinks env))))"
  by (rule download_loop_inv [OF loop_inv_begin]) simp

lemma downloadAllPdfs_eq:
  "downloadAllPdfs env d =
     save_index (download_loop env (discovered env) 0 (begin_run d (snd (getPdfLinks env))))"
  by (simp add: downloadAllPdfs_def discovered_def split: prod.splits)

lemma downloadAllPdfs_cases:
  obtains rs :: run where
    "loop_inv env d (discovered env) (length (discovered env)) rs"
    "downloadAllPdfs env d =
       rs\<lparr>index_file := Some (indexData rs),
          trace := trace rs @ [WriteIndex (indexData rs), LogAllSaved]\<rparr>"
proof -
  let ?rs = "download_loop env (discovered env) 0 (begin_run d (snd (getPdfLinks env)))"
  have "downloadAllPdfs env d =
       ?rs\<lparr>index_file := Some (indexData ?rs),
          trace := trace ?rs @ [WriteIndex (indexData ?rs), LogAllSaved]\<rparr>"
    by (simp add: downloadAllPdfs_eq save_index_def emit_def)
  with download_loop_run_inv [of env d] show thesis by (rule that)
qed

lemma newly_final:
  "newly env (tr @ [WriteIndex recs, LogAllSaved]) = newly env tr"
  by (simp add: fun_eq_iff newly_def)

lemma resume_index_file:
  "resume env t (rs\<lparr>index_file := x\<rparr>) =
     (case resume env t rs of (t', rs') \<Rightarrow> (t', rs'\<lparr>index_file := x\<rparr>))"
proof (cases t)
  case (Task idx url pc)
  then show ?thesis
    by (cases pc)
       (simp_all add: catch_error_def emit_def Let_def generateChecksum_def statSize_def
          split: transfer.splits option.splits sum.splits)
qed

lemma downloadPdf_index_file:
  "downloadPdf url idx (rs\<lparr>index_file := x\<rparr>) =
     (case downloadPdf url idx rs of (t, rs') \<Rightarrow> (t, rs'\<lparr>index_file := x\<rparr>))"
  by (simp add: downloadPdf_def getBatchFolder_def emit_def Let_def)

lemma start_chunk_index_file:
  "start_chunk n urls (rs\<lparr>index_file := x\<rparr>) =
     (case start_chunk n urls rs of (ts, rs') \<Rightarrow> (ts, rs'\<lparr>index_file := x\<rparr>))"
  by (induction urls arbitrary: n rs)
     (simp_all add: downloadPdf_index_file Let_def split: prod.splits)

lemma run_picks_index_file:
  "run_picks env ks ts (rs\<lparr>index_file := x\<rparr>) =
     (case run_picks env ks ts rs of (ts', rs') \<Rightarrow> (ts', rs'\<lparr>index_file := x\<rparr>))"
  by (induction ks arbitrary: ts rs)
     (simp_all add: resume_index_file Let_def split: prod.splits)

lemma download_loop_index_file:
  "download_loop env links i (rs\<lparr>index_file := x\<rparr>) =
     (download_loop env links i rs)\<lparr>index_file := x\<rparr>"
proof (induction env links i rs rule: download_loop.induct)
  case (1 env pdfLinks i rs)
  show ?case
  proof (cases "i < length pdfLinks")
    case False
    then show ?thesis by (simp add: download_loop.simps)
  next
    case True
    obtain ts rs1 where s: "start_chunk i (take CHUNK_SIZE (drop i pdfLinks)) rs = (ts, rs1)"
      by (cases "start_chunk i (take CHUNK_SIZE (drop i pdfLinks)) rs")
    obtain ts2 rs2 where p: "promise_all env (picks env i) ts rs1 = (ts2, rs2)"
      by (cases "promise_all env (picks env i) ts rs1")
    from p have p': "promise_all env (picks env i) ts (rs1\<lparr>index_file := x\<rparr>) =
        (ts2, rs2\<lparr>index_file := x\<rparr>)"
      by (simp add: promise_all_def run_picks_index_file)
    have "download_loop env pdfLinks (i + CHUNK_SIZE) (rs2\<lparr>index_file := x\<rparr>) =
          (download_loop env pdfLinks (i + CHUNK_SIZE) rs2)\<lparr>index_file := x\<rparr>"
      by (rule "1.IH" [OF True refl s [symmetric] refl p [symmetric]])
    with True s p p' show ?thesis
      by (subst (1 2) download_loop.simps) (simp add: start_chunk_index_file)
  qed
qed

lemma downloadAllPdfs_ignores_index_file:
  "downloadAllPdfs env (d\<lparr>index_file := x\<rparr>) = downloadAllPdfs env d"
proof -
  have "begin_run (d\<lparr>index_file := x\<rparr>) evs = (begin_run d evs)\<lparr>index_file := x\<rparr>" for evs
    by (simp add: begin_run_def stored_def)
  then show ?thesis
    by (simp add: downloadAllPdfs_eq download_loop_index_file save_index_def emit_def)
qed


section \<open>The manifest\<close>

text \<open>
  Claim C5. The manifest of a run is written once, as the last thing the run does before
  its closing log line, and it is the list the run collected: by file name and locator,
  exactly the resources at the positions the run started to download (it did not skip
  them) and whose fetch, write and hash all succeeded. What \<^verbatim>\<open>index.json\<close> held
  before the run plays no part in it.
\<close>

theorem manifest_of_run:
  "let r = downloadAllPdfs env d in
     index_file r = Some (indexData r) \<and>
     (\<exists>pre. trace r = pre @ [WriteIndex (indexData r), LogAllSaved] \<and>
        (\<forall>recs. WriteIndex recs \<notin> set pre)) \<and>
     mset (map rkey (indexData r)) =
       mset (map ukey (filter (newly env (trace r)) (enumerate 1 (discovered env)))) \<and>
     (\<forall>x. downloadAllPdfs env (d\<lparr>index_file := x\<rparr>) = r)"
proof -
  obtain rs :: run where inv: "loop_inv env d (discovered env) (length (discovered env)) rs"
    and r: "downloadAllPdfs env d =
       rs\<lparr>index_file := Some (indexData rs),
          trace := trace rs @ [WriteIndex (indexData rs), LogAllSaved]\<rparr>"
    by (rule downloadAllPdfs_cases)
  from inv have ti: "trace_inv (trace rs)"
    and ms: "mset (map rkey (indexData rs)) =
       mset (map ukey (filter (newly env (trace rs)) (enumerate 1 (discovered env))))"
    by (simp_all add: loop_inv_def)
  from ti have "\<forall>recs. WriteIndex recs \<notin> set (trace rs)" by (simp add: trace_inv_def)
  with ms show ?thesis
    unfolding Let_def downloadAllPdfs_ignores_index_file r by (simp add: newly_final)
qed

section \<open>Groups of five\<close>

text \<open>
  Claim C9. The tasks are called in the order of the listing, one per position. At every
  moment of the run at most five tasks have been called and not settled, and when the
  task of a position is called, every task of an earlier group of five has settled. Every
  task settles.
\<close>

theorem groups_of_five:
  "let tr = trace (downloadAllPdfs env d); n = length (discovered env) in
     CHUNK_SIZE = 5 \<and>
     calls tr = [1..<Suc n] \<and>
     (\<forall>k. length (in_flight (take k tr)) \<le> CHUNK_SIZE) \<and>
     (\<forall>k j i. k < length tr \<and> tr ! k = Call j \<and> 1 \<le> i \<and>
        (i - 1) div CHUNK_SIZE < (j - 1) div CHUNK_SIZE \<longrightarrow> Settle i \<in> set (take k tr)) \<and>
     (\<forall>i\<in>set (calls tr). Settle i \<in> set tr) \<and>
     (\<forall>i f. LogDownloading i f \<in> set tr \<longrightarrow>
        (\<exists>u. (i, u) \<in> set (enumerate 1 (discovered env)) \<and> f = basename u))"
proof -
  obtain rs :: run where inv: "loop_inv env d (discovered env) (length (discovered env)) rs"
    and r: "downloadAllPdfs env d =
       rs\<lparr>index_file := Some (indexData rs),
          trace := trace rs @ [WriteIndex (indexData rs), LogAllSaved]\<rparr>"
    by (rule downloadAllPdfs_cases)
  let ?evs = "[WriteIndex (indexData rs), LogAllSaved]"
  from inv have cl: "calls (trace rs) = [1..<Suc (length (discovered env))]"
    and st: "\<forall>i\<in>set (calls (trace rs)). Settle i \<in> set (trace rs)"
    and bf: "bounded_flight (trace rs)" and ba: "barrier (trace rs)"
    and dl: "\<forall>i f. LogDownloading i f \<in> set (trace rs) \<longrightarrow>
        (\<exists>u. (i, u) \<in> set (enumerate 1 (take (length (discovered env)) (discovered env))) \<and>
             f = basename u \<and> files d (filePathOf i u) = None)"
    by (simp_all add: loop_inv_def)
  have "bounded_flight (trace rs @ ?evs)"
    using bf st by (rule bounded_flight_append) simp
  then have b1: "\<forall>k. length (in_flight (take k (trace rs @ ?evs))) \<le> CHUNK_SIZE"
    by (simp add: bounded_flight_def)
  have "barrier (trace rs @ ?evs)"
    using ba by (rule barrier_append) simp
  then have b2: "\<forall>k j i. k < length (trace rs @ ?evs) \<and> (trace rs @ ?evs) ! k = Call j \<and> 1 \<le> i \<and>
        (i - 1) div CHUNK_SIZE < (j - 1) div CHUNK_SIZE \<longrightarrow>
        Settle i \<in> set (take k (trace rs @ ?evs))"
    unfolding barrier_def .
  have b3: "\<forall>i\<in>set (calls (trace rs @ ?evs)). Settle i \<in> set (trace rs @ ?evs)"
    using st by simp
  have b4: "\<forall>i f. LogDownloading i f \<in> set (trace rs @ ?evs) \<longrightarrow>
        (\<exists>u. (i, u) \<in> set (enumerate 1 (discovered env)) \<and> f = basename u)"
    using dl by auto
  have b0: "calls (trace rs @ ?evs) = [1..<Suc (length (discovered env))]"
    using cl by simp
  show ?thesis
    unfolding Let_def r using b0 b1 b2 b3 b4 by (simp add: CHUNK_SIZE_def)
qed

lemma stored_final:
  assumes "store_inv d rs"
  shows "stored rs = (if indexData rs = [] then stored d else checksums rs)"
  using assms by (simp add: store_inv_def stored_def)

section \<open>The checksum store\<close>


section \<open>Failures\<close>


section \<open>Files that are already there\<close>

lemma downloadPdf_skip:
  "files rs (filePathOf idx url) \<noteq> None \<Longrightarrow>
   downloadPdf url idx rs =
     (Task idx url Settled,
      rs\<lparr>dirs := ensureDir (batchFolderName idx) (dirs rs),
         trace := trace rs @ [Call idx, LogSkip (basename url), Settle idx]\<rparr>)"
  by (auto simp: downloadPdf_def getBatchFolder_def emit_def Let_def filePathOf_def)

lemma run_downloading_sound:
  assumes "LogDownloading i f \<in> set (trace (downloadAllPdfs env d))"
  shows "\<exists>u. (i, u) \<in> set (enumerate 1 (discovered env)) \<and> f = basename u \<and>
             files d (filePathOf i u) = None"
proof -
  obtain rs :: run where inv: "loop_inv env d (discovered env) (length (discovered env)) rs"
    and r: "downloadAllPdfs env d =
       rs\<lparr>index_file := Some (indexData rs),
          trace := trace rs @ [WriteIndex (indexData rs), LogAllSaved]\<rparr>"
    by (rule downloadAllPdfs_cases)
  from inv have "\<forall>i f. LogDownloading i f \<in> set (trace rs) \<longrightarrow>
        (\<exists>u. (i, u) \<in> set (enumerate 1 (take (length (discovered env)) (discovered env))) \<and>
             f = basename u \<and> files d (filePathOf i u) = None)"
    by (simp add: loop_inv_def)
  with assms show ?thesis by (simp add: r)
qed

lemma run_files_mono:
  "files d p \<noteq> None \<Longrightarrow> files (downloadAllPdfs env d) p \<noteq> None"
proof -
  obtain rs :: run where inv: "loop_inv env d (discovered env) (length (discovered env)) rs"
    and r: "downloadAllPdfs env d =
       rs\<lparr>index_file := Some (indexData rs),
          trace := trace rs @ [WriteIndex (indexData rs), LogAllSaved]\<rparr>"
    by (rule downloadAllPdfs_cases)
  from inv have "\<forall>p. files d p \<noteq> None \<longrightarrow> files rs p \<noteq> None"
    by (simp add: loop_inv_def)
  moreover have "files (downloadAllPdfs env d) = files rs" by (simp add: r)
  ultimately show "files d p \<noteq> None \<Longrightarrow> files (downloadAllPdfs env d) p \<noteq> None"
    by metis
qed

lemma run_skips_name:
  assumes "\<forall>p\<in>set (enumerate 1 (discovered env)).
             basename (snd p) = f \<longrightarrow> files d (filePathOf (fst p) (snd p)) \<noteq> None"
  shows "(\<forall>i. LogDownloading i f \<notin> set (trace (downloadAllPdfs env d))) \<and>
         (\<forall>u. basename u = f \<longrightarrow> HttpGet u \<notin> set (trace (downloadAllPdfs env d))) \<and>
         (\<forall>b. Hash (b, f) \<notin> set (trace (downloadAllPdfs env d))) \<and>
         f \<notin> r_fileName ` set (indexData (downloadAllPdfs env d)) \<and>
         map_of (stored (downloadAllPdfs env d)) f = map_of (stored d) f"
proof -
  obtain rs :: run where inv: "loop_inv env d (discovered env) (length (discovered env)) rs"
    and r: "downloadAllPdfs env d =
       rs\<lparr>index_file := Some (indexData rs),
          trace := trace rs @ [WriteIndex (indexData rs), LogAllSaved]\<rparr>"
    by (rule downloadAllPdfs_cases)
  let ?ps = "enumerate 1 (discovered env)"
  from inv have si: "store_inv d rs" and ti: "trace_inv (trace rs)"
    and ms: "mset (map rkey (indexData rs)) =
       mset (map ukey (filter (newly env (trace rs)) ?ps))"
    by (simp_all add: loop_inv_def)
  have nd: "LogDownloading i f \<notin> set (trace rs)" for i
  proof
    assume "LogDownloading i f \<in> set (trace rs)"
    then have "LogDownloading i f \<in> set (trace (downloadAllPdfs env d))" by (simp add: r)
    from run_downloading_sound [OF this] assms show False by force
  qed
  have ng: "HttpGet u \<notin> set (trace rs)" if "basename u = f" for u
    using ti nd that unfolding trace_inv_def by blast
  have nh: "Hash (b, f) \<notin> set (trace rs)" for b
    using ti nd unfolding trace_inv_def by blast
  have sets: "rkey ` set (indexData rs) = ukey ` {p \<in> set ?ps. newly env (trace rs) p}"
    using mset_eq_setD [OF ms] by simp
  have nr: "f \<notin> r_fileName ` set (indexData rs)"
  proof
    assume "f \<in> r_fileName ` set (indexData rs)"
    then obtain rec where rec: "rec \<in> set (indexData rs)" "r_fileName rec = f" by auto
    then have "rkey rec \<in> rkey ` set (indexData rs)" by simp
    with sets obtain p where "newly env (trace rs) p" "rkey rec = ukey p" by auto
    with rec(2) have "LogDownloading (fst p) f \<in> set (trace rs)"
      by (auto simp: newly_def rkey_def ukey_def)
    with nd show False by blast
  qed
  have "map_of (checksums rs) g = map_of (stored d) g"
    if "g \<notin> r_fileName ` set (indexData rs)" for g
    using si that by (simp add: store_inv_def)
  with nr have "map_of (checksums rs) f = map_of (stored d) f" by blast
  then have st: "map_of (stored rs) f = map_of (stored d) f"
    by (simp add: stored_final [OF si])
  have sr: "stored (rs\<lparr>index_file := Some (indexData rs),
          trace := trace rs @ [WriteIndex (indexData rs), LogAllSaved]\<rparr>) = stored rs"
    by (simp add: stored_def)
  show ?thesis
    unfolding r sr using nd ng nh nr st by simp
qed

lemma stored_disk_of: "stored (disk_of r) = stored r"
  by (simp add: stored_def disk_of_def)

lemma download_runs_name:
  "\<forall>env\<in>set envs. \<forall>p\<in>set (enumerate 1 (discovered env)).
       basename (snd p) = f \<longrightarrow> files d (filePathOf (fst p) (snd p)) \<noteq> None \<Longrightarrow>
   map_of (stored (download_runs envs d)) f = map_of (stored d) f"
proof (induction envs arbitrary: d)
  case Nil
  show ?case by simp
next
  case (Cons env envs)
  let ?d = "disk_of (downloadAllPdfs env d)"
  have "\<forall>e\<in>set envs. \<forall>p\<in>set (enumerate 1 (discovered e)).
       basename (snd p) = f \<longrightarrow> files ?d (filePathOf (fst p) (snd p)) \<noteq> None"
  proof (intro ballI impI)
    fix e p
    assume "e \<in> set envs" "p \<in> set (enumerate 1 (discovered e))" "basename (snd p) = f"
    with Cons.prems have "files d (filePathOf (fst p) (snd p)) \<noteq> None" by simp
    then have "files (downloadAllPdfs env d) (filePathOf (fst p) (snd p)) \<noteq> None"
      by (rule run_files_mono)
    then show "files ?d (filePathOf (fst p) (snd p)) \<noteq> None"
      by (simp add: disk_of_def)
  qed
  then have "map_of (stored (download_runs envs ?d)) f = map_of (stored ?d) f"
    by (rule Cons.IH)
  moreover have "map_of (stored ?d) f = map_of (stored d) f"
    using Cons.prems by (simp add: stored_disk_of run_skips_name)
  ultimately show ?case by simp
qed

text \<open>
  Claim C3. A call of \<^verbatim>\<open>downloadPdf\<close> that finds the file at its path only logs the
  skip and settles: no request, no hash, and the map and the list of records stay as they
  are. So in a run, when every position that bears a name finds its file on disk, nothing
  is fetched or hashed under that name, the manifest has no record of it, and the stored
  map says about the name what it said before: a name without a checksum stays without
  one, in this run and in every later run that finds the file where it looks for it.
\<close>

theorem existing_file_is_skipped:
  assumes "\<forall>e\<in>set (env # envs). \<forall>p\<in>set (enumerate 1 (discovered e)).
       basename (snd p) = f \<longrightarrow> files d (filePathOf (fst p) (snd p)) \<noteq> None"
  shows "let r = downloadAllPdfs env d in
     (\<forall>rs :: run. \<forall>url idx. files rs (filePathOf idx url) \<noteq> None \<longrightarrow>
        downloadPdf url idx rs =
          (Task idx url Settled,
           rs\<lparr>dirs := ensureDir (batchFolderName idx) (dirs rs),
              trace := trace rs @ [Call idx, LogSkip (basename url), Settle idx]\<rparr>)) \<and>
     (\<forall>i. LogDownloading i f \<notin> set (trace r)) \<and>
     (\<forall>u. basename u = f \<longrightarrow> HttpGet u \<notin> set (trace r)) \<and>
     (\<forall>b. Hash (b, f) \<notin> set (trace r)) \<and>
     f \<notin> r_fileName ` set (indexData r) \<and>
     map_of (stored r) f = map_of (stored d) f \<and>
     map_of (stored (download_runs (env # envs) d)) f = map_of (stored d) f"
proof -
  from assms have one: "\<forall>p\<in>set (enumerate 1 (discovered env)).
       basename (snd p) = f \<longrightarrow> files d (filePathOf (fst p) (snd p)) \<noteq> None"
    by simp
  from run_skips_name [OF one] download_runs_name [OF assms] show ?thesis
    unfolding Let_def by (simp add: downloadPdf_skip)
qed

section \<open>Verification\<close>
















text \<open>
  Claim C8. Without \<^verbatim>\<open>checksums.json\<close> verification logs that there are no checksums
  and returns: it lists no directory, probes no path and hashes no file.
\<close>

theorem verify_without_checksum_file:
  "checksum_file d = None \<Longrightarrow> verifyChecksums env d = Inr ([], [LogNoChecksums])"
  by (simp add: verifyChecksums_def)

section \<open>Partial files\<close>


section \<open>Discovery failure\<close>

text \<open>
  Claim C6, as the code has it. When the listing cannot be fetched the run starts no
  download and leaves the folders, the files and \<^verbatim>\<open>checksums.json\<close> as they are; it
  still writes \<^verbatim>\<open>index.json\<close>, with an empty list of records.
\<close>

theorem discovery_failure_run:
  "page env = None \<Longrightarrow>
   downloadAllPdfs env d =
     \<lparr>dirs = dirs d, files = files d, checksum_file = checksum_file d,
      index_file = Some [], checksums = stored d, indexData = [],
      trace = [LogFetchingPage, LogPageError, WriteIndex [], LogAllSaved]\<rparr>"
  by (simp add: downloadAllPdfs_def getPdfLinks_def download_loop.simps save_index_def
      begin_run_def emit_def)

theorem discovery_failure_run_witness:
  "downloadAllPdfs (env_ex\<lparr>page := None\<rparr>) disk_ex =
     \<lparr>dirs = [''Batch_1''], files = files disk_ex, checksum_file = Some [(''z.pdf'', ''zz'')],
      index_file = Some [], checksums = [(''z.pdf'', ''zz'')], indexData = [],
      trace = [LogFetchingPage, LogPageError, WriteIndex [], LogAllSaved]\<rparr>"
  using discovery_failure_run [of "env_ex\<lparr>page := None\<rparr>" disk_ex]
  by (simp add: disk_ex_def stored_def)

theorem discovery_failure_writes_manifest:
  "page (env_ex\<lparr>page := None\<rparr>) = None \<and>
   index_file disk_ex = None \<and>
   index_file (downloadAllPdfs (env_ex\<lparr>page := None\<rparr>) disk_ex) = Some []"
  by (simp add: downloadAllPdfs_def getPdfLinks_def download_loop.simps save_index_def
      begin_run_def emit_def disk_ex_def)

section \<open>The statements at the example run\<close>



lemma basename_e: "basename ''https://www.archives.gov/e.pdf'' = ''e.pdf''"
  by (simp add: basename_def)



theorem groups_of_five_witness:
  "trace run_ex ! 29 = Call 6 \<and> Settle 1 \<in> set (take 29 (trace run_ex)) \<and>
   length (in_flight (take 14 (trace run_ex))) \<le> 5 \<and>
   calls (trace run_ex) = [1, 2, 3, 4, 5, 6]"
proof -
  have a: "29 < length (trace run_ex)" "trace run_ex ! 29 = Call 6" by code_simp+
  have n: "length (discovered env_ex) = 6" by code_simp
  from groups_of_five [of env_ex disk_ex]
  have b: "\<forall>k j i. k < length (trace run_ex) \<and> trace run_ex ! k = Call j \<and> 1 \<le> i \<and>
        (i - 1) div 5 < (j - 1) div 5 \<longrightarrow> Settle i \<in> set (take k (trace run_ex))"
    and c: "\<forall>k. length (in_flight (take k (trace run_ex))) \<le> 5"
    and e: "calls (trace run_ex) = [1..<Suc (length (discovered env_ex))]"
    unfolding Let_def run_ex_def CHUNK_SIZE_def by blast+
  from b [rule_format, of 29 6 1] a have "Settle 1 \<in> set (take 29 (trace run_ex))"
    by simp
  moreover from c have "length (in_flight (take 14 (trace run_ex))) \<le> 5"
    by simp
  moreover from e n have "calls (trace run_ex) = [1, 2, 3, 4, 5, 6]"
    by (simp add: upt_rec)
  ultimately show ?thesis using a by simp
qed


theorem existing_file_is_skipped_witness:
  "files disk_ex (''Batch_1'', ''e.pdf'') = Some ''old'' \<and>
   map_of (stored disk_ex) ''e.pdf'' = None \<and>
   map_of (stored (download_runs [env_ex, env_ex] disk_ex)) ''e.pdf'' = None \<and>
   HttpGet ''https://www.archives.gov/e.pdf'' \<notin> set (trace run_ex)"
proof -
  have h: "\<forall>e\<in>set [env_ex, env_ex]. \<forall>p\<in>set (enumerate 1 (discovered e)).
       basename (snd p) = ''e.pdf'' \<longrightarrow> files disk_ex (filePathOf (fst p) (snd p)) \<noteq> None"
    by code_simp
  have s: "map_of (stored disk_ex) ''e.pdf'' = None" by (simp add: stored_def disk_ex_def)
  from existing_file_is_skipped [OF h]
  have "\<forall>u. basename u = ''e.pdf'' \<longrightarrow> HttpGet u \<notin> set (trace run_ex)"
    and "map_of (stored (download_runs [env_ex, env_ex] disk_ex)) ''e.pdf'' =
         map_of (stored disk_ex) ''e.pdf''"
    by (simp_all add: Let_def run_ex_def)
  with s basename_e show ?thesis by (simp add: disk_ex_def)
qed


theorem verify_without_checksum_file_witness:
  "verifyChecksums env_ex (disk_ex\<lparr>checksum_file := None\<rparr>) = Inr ([], [LogNoChecksums])"
  using verify_without_checksum_file [of "disk_ex\<lparr>checksum_file := None\<rparr>" env_ex]
  by simp



theorem manifest_of_run_witness:
  "index_file run_ex = Some (indexData run_ex) \<and>
   mset (map rkey (indexData run_ex)) =
     mset (map ukey (filter (newly env_ex (trace run_ex)) (enumerate 1 (discovered env_ex))))"
  using manifest_of_run [of env_ex disk_ex]
  by (simp add: Let_def run_ex_def)

end
